theory Spec2Isabelle
  imports Main "HOL-Library.AList" "HOL-Library.Product_Lexorder" "HOL-Library.Word"
begin

unbundle bit_operations_syntax

section \<open>Data model of the stake keeper\<close>

text \<open>
  The keeper functions under verification are those of the files
  \<^verbatim>\<open>src/x/ibc/msgs.go\<close> (second document: package keeper, validator store) and
  \<^verbatim>\<open>src/unnamed/part_000\<close> (validator-set updates and state transitions).

  Addresses are fixed-length byte strings compared with \<^verbatim>\<open>bytes.Compare\<close>; a
  fixed-length byte string read as a big-endian number has the same order, so an address
  is a natural number. \<^verbatim>\<open>sdk.Dec\<close> values and \<^verbatim>\<open>int64\<close> are integers (no claim
  depends on their overflow), block times are integers.
\<close>

text \<open>
  Modelled from the spec: the declarations of \<^verbatim>\<open>GetIntraTxCounter\<close>,
  \<^verbatim>\<open>SetIntraTxCounter\<close> and of the field \<^verbatim>\<open>BondIntraTxCounter\<close> are not under src/.
  Section 3 gives the intra-tx counter as a per-block counter used only as an ordering
  tie-break. It is a fixed-width machine integer, so \<^verbatim>\<open>counter+1\<close> in
  \<^verbatim>\<open>AddValidatorTokensAndShares\<close> wraps around; it is taken at 16 bits, the width of
  the \<^verbatim>\<open>int16\<close> counter of the staking module this keeper derives from.
\<close>

type_synonym Counter = "16 word"

type_synonym ValAddress = nat
type_synonym ConsAddress = nat
type_synonym Dec = int
type_synonym Time = int

datatype BondStatus = Unbonded | Unbonding | Bonded

text \<open>A consensus public key; \<^verbatim>\<open>Address()\<close> derives its consensus address.\<close>

datatype PubKey = PubKeyBytes (keyBytes: nat) (Address: ConsAddress)

text \<open>
  Modelled from the spec: the declaration of \<^verbatim>\<open>types.Validator\<close> is not under src/.
  Section 3 gives the consensus identity as a mutually exclusive variant: a consensus
  public key (main chain) or a side-chain consensus address. The source's test
  \<^verbatim>\<open>validator.ConsPubKey != nil\<close> is \<open>hasConsPubKey\<close>, and
  \<^verbatim>\<open>validator.IsSideChainValidator()\<close> is its complement.
\<close>

datatype ConsIdentity = ConsPubKey PubKey | SideConsAddr ConsAddress

record Commission =
  Rate :: Dec
  MaxRate :: Dec
  MaxChangeRate :: Dec
  UpdateTime :: Time

record Validator =
  OperatorAddr :: ValAddress
  ConsId :: ConsIdentity
  SideChainId :: string
  Jailed :: bool
  Status :: BondStatus
  Tokens :: Dec
  DelegatorShares :: Dec
  BondHeight :: int
  BondIntraTxCounter :: Counter
  UnbondingHeight :: int
  UnbondingMinTime :: Time
  Commission :: Commission

fun hasConsPubKey :: "Validator \<Rightarrow> bool" where
  "hasConsPubKey v = (case ConsId v of ConsPubKey _ \<Rightarrow> True | SideConsAddr _ \<Rightarrow> False)"

fun IsSideChainValidator :: "Validator \<Rightarrow> bool" where
  "IsSideChainValidator v = (case ConsId v of ConsPubKey _ \<Rightarrow> False | SideConsAddr _ \<Rightarrow> True)"

text \<open>
  The consensus address under which the validator is indexed: \<^verbatim>\<open>SideConsAddr\<close> for a
  side-chain validator, \<^verbatim>\<open>ConsPubKey.Address()\<close> otherwise (the two branches of
  \<^verbatim>\<open>SetValidatorByConsAddr\<close> and of \<^verbatim>\<open>RemoveValidator\<close>).
\<close>

fun consAddrOf :: "Validator \<Rightarrow> ConsAddress" where
  "consAddrOf v = (case ConsId v of ConsPubKey pk \<Rightarrow> Address pk | SideConsAddr a \<Rightarrow> a)"

record Pool =
  LooseTokens :: Dec
  BondedTokens :: Dec

record Params =
  MaxValidators :: nat
  UnbondingTime :: Time

text \<open>
  Modelled from the spec: \<^verbatim>\<open>abci.ValidatorUpdate\<close> and the methods
  \<^verbatim>\<open>ABCIValidatorUpdate\<close>, \<^verbatim>\<open>ABCIValidatorUpdateZero\<close> are not under src/. By
  sections 4.3 and 6 a consensus-update record is the operator's address and consensus
  identity with the new power, zero meaning removal.
\<close>

record ValidatorUpdate =
  Operator :: ValAddress
  PubKey :: ConsIdentity
  Power :: int

text \<open>Calls received by the lifecycle hooks (\<^verbatim>\<open>k.hooks\<close>), in order.\<close>

datatype HookCall =
    OnValidatorBonded ConsAddress ValAddress
  | OnSideChainValidatorBonded ConsAddress ValAddress
  | OnValidatorBeginUnbonding ConsAddress ValAddress
  | OnSideChainValidatorBeginUnbonding ConsAddress ValAddress

text \<open>Events published on \<^verbatim>\<open>k.PbsbServer\<close>; the flag is \<^verbatim>\<open>IsFromTx\<close>.\<close>

datatype StakeEvent =
    ValidatorUpdateEvent bool Validator
  | ValidatorRemovedEvent bool ValAddress string

text \<open>
  Modelled from the spec: \<^verbatim>\<open>GetValidatorsByPowerIndexKey\<close> (keys.go) is not under src/.
  By sections 3 and 4.2 the key is \<open>encode(power, bond_height, intra_tx_counter,
  operator_address)\<close>, and descending iteration yields power descending, then bond height,
  counter and address ascending. The key is a tuple in lexicographic order with the bond
  height and the address negated and the counter complemented bit by bit (words are
  ordered as unsigned numbers, as the bytes of the encoding are). The key does not depend
  on \<open>Jailed\<close> or \<open>Status\<close>.
\<close>

type_synonym PowerKey = "int \<times> int \<times> Counter \<times> int"

definition GetValidatorsByPowerIndexKey :: "Validator \<Rightarrow> PowerKey" where
  "GetValidatorsByPowerIndexKey v =
     (Tokens v, - BondHeight v, NOT (BondIntraTxCounter v), - int (OperatorAddr v))"

text \<open>
  The context and the five keyspaces of the store. Keyspaces that the code only reads and
  writes by key are maps; keyspaces that the code iterates are association lists, iterated
  in key order. The fields \<open>hooks\<close> and \<open>pbsbServer\<close> say whether \<^verbatim>\<open>k.hooks\<close> and
  \<^verbatim>\<open>k.PbsbServer\<close> are non-nil, \<open>hasTx\<close> whether \<^verbatim>\<open>ctx.Tx()\<close> is non-nil;
  \<open>hookCalls\<close> and \<open>published\<close> record what they received.
\<close>

record State =
  validators :: "ValAddress \<rightharpoonup> Validator"
  validatorsByConsAddr :: "ConsAddress \<rightharpoonup> ValAddress"
  validatorsByPower :: "(PowerKey \<times> ValAddress) list"
  lastValidatorPower :: "(ValAddress \<times> int) list"
  lastTotalPower :: int
  validatorQueue :: "(Time \<times> ValAddress list) list"
  pool :: Pool
  intraTxCounter :: Counter
  params :: Params
  blockHeight :: int
  blockTime :: Time
  isDeliverTx :: bool
  hasTx :: bool
  hooks :: bool
  hookCalls :: "HookCall list"
  pbsbServer :: bool
  published :: "StakeEvent list"

text \<open>Every panic of the source is a value.\<close>

datatype error =
    ValidatorNotFound ValAddress
  | JailedInPowerStore
  | UnexpectedStatus
  | BadStateTransition
  | AlreadyJailed
  | AlreadyUnjailed

section \<open>Validator store (msgs.go, package keeper)\<close>

definition GetValidator :: "State \<Rightarrow> ValAddress \<Rightarrow> Validator option" where
  "GetValidator s addr = validators s addr"

definition mustGetValidator :: "State \<Rightarrow> ValAddress \<Rightarrow> error + Validator" where
  "mustGetValidator s addr =
     (case GetValidator s addr of None \<Rightarrow> Inl (ValidatorNotFound addr) | Some v \<Rightarrow> Inr v)"

definition publish :: "State \<Rightarrow> StakeEvent \<Rightarrow> State" where
  "publish s ev =
     (if pbsbServer s \<and> isDeliverTx s then s\<lparr>published := published s @ [ev]\<rparr> else s)"

definition SetValidator :: "State \<Rightarrow> Validator \<Rightarrow> State" where
  "SetValidator s validator =
     publish (s\<lparr>validators := (validators s)(OperatorAddr validator \<mapsto> validator)\<rparr>)
       (ValidatorUpdateEvent (hasTx s) validator)"

definition SetValidatorByConsAddr :: "State \<Rightarrow> Validator \<Rightarrow> State" where
  "SetValidatorByConsAddr s validator =
     s\<lparr>validatorsByConsAddr :=
         (validatorsByConsAddr s)(consAddrOf validator \<mapsto> OperatorAddr validator)\<rparr>"

definition SetValidatorByPowerIndex :: "State \<Rightarrow> Validator \<Rightarrow> State" where
  "SetValidatorByPowerIndex s validator =
     (if Jailed validator then s
      else s\<lparr>validatorsByPower :=
               AList.update (GetValidatorsByPowerIndexKey validator) (OperatorAddr validator)
                 (validatorsByPower s)\<rparr>)"

definition DeleteValidatorByPowerIndex :: "State \<Rightarrow> Validator \<Rightarrow> State" where
  "DeleteValidatorByPowerIndex s validator =
     s\<lparr>validatorsByPower :=
         AList.delete (GetValidatorsByPowerIndexKey validator) (validatorsByPower s)\<rparr>"

definition SetNewValidatorByPowerIndex :: "State \<Rightarrow> Validator \<Rightarrow> State" where
  "SetNewValidatorByPowerIndex s validator =
     s\<lparr>validatorsByPower :=
         AList.update (GetValidatorsByPowerIndexKey validator) (OperatorAddr validator)
           (validatorsByPower s)\<rparr>"

definition GetPool :: "State \<Rightarrow> Pool" where
  "GetPool s = pool s"

definition SetPool :: "State \<Rightarrow> Pool \<Rightarrow> State" where
  "SetPool s p = s\<lparr>pool := p\<rparr>"

definition GetIntraTxCounter :: "State \<Rightarrow> Counter" where
  "GetIntraTxCounter s = intraTxCounter s"

definition SetIntraTxCounter :: "State \<Rightarrow> Counter \<Rightarrow> State" where
  "SetIntraTxCounter s c = s\<lparr>intraTxCounter := c\<rparr>"

text \<open>
  \<^verbatim>\<open>AddTokensFromDel\<close> and \<^verbatim>\<open>RemoveDelShares\<close> (package types) are not under src/;
  the two keeper functions take them as the parameters \<open>addTokensFromDel\<close> and
  \<open>removeDelShares\<close>.
\<close>

definition AddValidatorTokensAndShares ::
  "(Validator \<Rightarrow> Pool \<Rightarrow> int \<Rightarrow> Validator \<times> Pool \<times> Dec) \<Rightarrow>
   State \<Rightarrow> Validator \<Rightarrow> int \<Rightarrow> (Validator \<times> Dec) \<times> State" where
  "AddValidatorTokensAndShares addTokensFromDel s validator tokensToAdd =
     (let pool0 = GetPool s;
          s1 = DeleteValidatorByPowerIndex s validator;
          (validator1, pool1, addedShares) = addTokensFromDel validator pool0 tokensToAdd;
          counter = GetIntraTxCounter s1;
          validator2 = validator1\<lparr>BondIntraTxCounter := counter\<rparr>;
          s2 = SetIntraTxCounter s1 (counter + 1);
          s3 = SetValidator s2 validator2;
          s4 = SetPool s3 pool1;
          s5 = SetValidatorByPowerIndex s4 validator2
      in ((validator2, addedShares), s5))"

definition RemoveValidatorTokensAndShares ::
  "(Validator \<Rightarrow> Pool \<Rightarrow> Dec \<Rightarrow> Validator \<times> Pool \<times> Dec) \<Rightarrow>
   State \<Rightarrow> Validator \<Rightarrow> Dec \<Rightarrow> (Validator \<times> Dec) \<times> State" where
  "RemoveValidatorTokensAndShares removeDelShares s validator sharesToRemove =
     (let pool0 = GetPool s;
          s1 = DeleteValidatorByPowerIndex s validator;
          (validator1, pool1, removedTokens) = removeDelShares validator pool0 sharesToRemove;
          s2 = SetValidator s1 validator1;
          s3 = SetPool s2 pool1;
          s4 = SetValidatorByPowerIndex s3 validator1
      in ((validator1, removedTokens), s4))"

text \<open>
  \<^verbatim>\<open>Commission.ValidateNewRate\<close> (package types) is not under src/; the keeper function
  takes it as the parameter \<open>validateNewRate\<close>, returning \<open>None\<close> for a nil error.
\<close>

datatype sdkError =
    ErrCommissionUpdateTime
  | ErrCommissionNegative
  | ErrCommissionGTMaxRate
  | ErrCommissionGTMaxChangeRate

definition UpdateValidatorCommission ::
  "(Commission \<Rightarrow> Dec \<Rightarrow> Time \<Rightarrow> sdkError option) \<Rightarrow>
   State \<Rightarrow> Validator \<Rightarrow> Dec \<Rightarrow> (Commission \<times> sdkError option) \<times> State" where
  "UpdateValidatorCommission validateNewRate s validator newRate =
     (let commission = Commission validator;
          blockTime0 = blockTime s
      in case validateNewRate commission newRate blockTime0 of
           Some err \<Rightarrow> ((commission, Some err), s)
         | None \<Rightarrow> ((commission\<lparr>Rate := newRate, UpdateTime := blockTime0\<rparr>, None), s))"

text \<open>
  Modelled from the spec: \<^verbatim>\<open>ValidateNewRate\<close> is not under src/. Section 7 names its
  three failures: the rate is outside its bounds, was changed too recently, or moves by
  more than the largest single adjustment. The spec gives no figure for "too recently";
  it is the parameter \<open>minGap\<close>.
\<close>

definition ValidateNewRate :: "Time \<Rightarrow> Commission \<Rightarrow> Dec \<Rightarrow> Time \<Rightarrow> sdkError option" where
  "ValidateNewRate minGap c newRate blockTime0 =
     (if blockTime0 - UpdateTime c < minGap then Some ErrCommissionUpdateTime
      else if newRate < 0 then Some ErrCommissionNegative
      else if MaxRate c < newRate then Some ErrCommissionGTMaxRate
      else if MaxChangeRate c < \<bar>newRate - Rate c\<bar> then Some ErrCommissionGTMaxChangeRate
      else None)"

definition RemoveValidator :: "State \<Rightarrow> ValAddress \<Rightarrow> State" where
  "RemoveValidator s address =
     (case GetValidator s address of
        None \<Rightarrow> s
      | Some validator \<Rightarrow>
          (let s1 = s\<lparr>validators := (validators s)(address := None)\<rparr>;
               s2 = s1\<lparr>validatorsByConsAddr :=
                         (validatorsByConsAddr s1)(consAddrOf validator := None)\<rparr>;
               s3 = s2\<lparr>validatorsByPower :=
                         AList.delete (GetValidatorsByPowerIndexKey validator)
                           (validatorsByPower s2)\<rparr>
           in publish s3
                (ValidatorRemovedEvent (hasTx s) (OperatorAddr validator)
                   (SideChainId validator))))"

section \<open>State transitions (part_000, package keeper)\<close>

text \<open>
  Modelled from the spec: \<^verbatim>\<open>Validator.UpdateStatus\<close>, \<^verbatim>\<open>Validator.BondedTokens\<close> and
  \<^verbatim>\<open>Validator.IsUnbonding\<close> (package types) are not under src/. By section 3 the pool
  is the aggregate of bonded and loose tokens, changed together with the validator: a
  status change moves the validator's tokens between the two totals when it enters or
  leaves \<open>Bonded\<close>, and the bonded power of a validator is its tokens when it is
  \<open>Bonded\<close> and zero otherwise.
\<close>

definition UpdateStatus :: "Validator \<Rightarrow> Pool \<Rightarrow> BondStatus \<Rightarrow> Validator \<times> Pool" where
  "UpdateStatus v p newStatus =
     (let p' =
        (if Status v \<noteq> Bonded \<and> newStatus = Bonded
         then p\<lparr>LooseTokens := LooseTokens p - Tokens v,
                 BondedTokens := BondedTokens p + Tokens v\<rparr>
         else if Status v = Bonded \<and> newStatus \<noteq> Bonded
         then p\<lparr>LooseTokens := LooseTokens p + Tokens v,
                 BondedTokens := BondedTokens p - Tokens v\<rparr>
         else p)
      in (v\<lparr>Status := newStatus\<rparr>, p'))"

definition BondedTokens_val :: "Validator \<Rightarrow> Dec" where
  "BondedTokens_val v = (if Status v = Bonded then Tokens v else 0)"

definition IsUnbonding :: "Validator \<Rightarrow> bool" where
  "IsUnbonding v = (Status v = Unbonding)"

definition ABCIValidatorUpdate :: "Validator \<Rightarrow> ValidatorUpdate" where
  "ABCIValidatorUpdate v =
     \<lparr>Operator = OperatorAddr v, PubKey = ConsId v, Power = BondedTokens_val v\<rparr>"

definition ABCIValidatorUpdateZero :: "Validator \<Rightarrow> ValidatorUpdate" where
  "ABCIValidatorUpdateZero v = \<lparr>Operator = OperatorAddr v, PubKey = ConsId v, Power = 0\<rparr>"

definition callHook :: "State \<Rightarrow> HookCall \<Rightarrow> State" where
  "callHook s c = (if hooks s then s\<lparr>hookCalls := hookCalls s @ [c]\<rparr> else s)"

text \<open>The unbonding queue: a timeslice per maturity time.\<close>

definition GetValidatorQueueTimeSlice :: "State \<Rightarrow> Time \<Rightarrow> ValAddress list" where
  "GetValidatorQueueTimeSlice s timestamp =
     (case map_of (validatorQueue s) timestamp of None \<Rightarrow> [] | Some valAddrs \<Rightarrow> valAddrs)"

definition SetValidatorQueueTimeSlice :: "State \<Rightarrow> Time \<Rightarrow> ValAddress list \<Rightarrow> State" where
  "SetValidatorQueueTimeSlice s timestamp keys =
     s\<lparr>validatorQueue := AList.update timestamp keys (validatorQueue s)\<rparr>"

definition InsertValidatorQueue :: "State \<Rightarrow> Validator \<Rightarrow> State" where
  "InsertValidatorQueue s val =
     (let timeSlice = GetValidatorQueueTimeSlice s (UnbondingMinTime val)
      in if length timeSlice = 0
         then SetValidatorQueueTimeSlice s (UnbondingMinTime val) [OperatorAddr val]
         else SetValidatorQueueTimeSlice s (UnbondingMinTime val)
                (timeSlice @ [OperatorAddr val]))"

definition bondValidator :: "State \<Rightarrow> Validator \<Rightarrow> Validator \<times> State" where
  "bondValidator s validator =
     (let pool0 = GetPool s;
          s1 = DeleteValidatorByPowerIndex s validator;
          validator1 = validator\<lparr>BondHeight := blockHeight s1\<rparr>;
          (validator2, pool1) = UpdateStatus validator1 pool0 Bonded;
          s2 = SetPool s1 pool1;
          s3 = SetValidator s2 validator2;
          s4 = SetValidatorByPowerIndex s3 validator2;
          s5 = (if IsSideChainValidator validator2
                then callHook s4
                       (OnSideChainValidatorBonded (consAddrOf validator2)
                          (OperatorAddr validator2))
                else callHook s4
                       (OnValidatorBonded (consAddrOf validator2) (OperatorAddr validator2)))
      in (validator2, s5))"

definition beginUnbondingValidator :: "State \<Rightarrow> Validator \<Rightarrow> error + Validator \<times> State" where
  "beginUnbondingValidator s validator =
     (let pool0 = GetPool s;
          params0 = params s;
          s1 = DeleteValidatorByPowerIndex s validator
      in if Status validator \<noteq> Bonded then Inl BadStateTransition
         else
           (let (validator1, pool1) = UpdateStatus validator pool0 Unbonding;
                s2 = SetPool s1 pool1;
                validator2 = validator1\<lparr>UnbondingMinTime := blockTime s2 + UnbondingTime params0,
                                        UnbondingHeight := blockHeight s2\<rparr>;
                s3 = SetValidator s2 validator2;
                s4 = SetValidatorByPowerIndex s3 validator2;
                s5 = InsertValidatorQueue s4 validator2;
                s6 = (if IsSideChainValidator validator2
                      then callHook s5
                             (OnSideChainValidatorBeginUnbonding (consAddrOf validator2)
                                (OperatorAddr validator2))
                      else callHook s5
                             (OnValidatorBeginUnbonding (consAddrOf validator2)
                                (OperatorAddr validator2)))
            in Inr (validator2, s6)))"

definition completeUnbondingValidator :: "State \<Rightarrow> Validator \<Rightarrow> Validator \<times> State" where
  "completeUnbondingValidator s validator =
     (let pool0 = GetPool s;
          (validator1, pool1) = UpdateStatus validator pool0 Unbonded;
          s1 = SetPool s pool1;
          s2 = SetValidator s1 validator1
      in (validator1, s2))"

definition bondedToUnbonding :: "State \<Rightarrow> Validator \<Rightarrow> error + Validator \<times> State" where
  "bondedToUnbonding s validator =
     (if Status validator \<noteq> Bonded then Inl BadStateTransition
      else beginUnbondingValidator s validator)"

definition unbondingToBonded :: "State \<Rightarrow> Validator \<Rightarrow> error + Validator \<times> State" where
  "unbondingToBonded s validator =
     (if Status validator \<noteq> Unbonding then Inl BadStateTransition
      else Inr (bondValidator s validator))"

definition unbondedToBonded :: "State \<Rightarrow> Validator \<Rightarrow> error + Validator \<times> State" where
  "unbondedToBonded s validator =
     (if Status validator \<noteq> Unbonded then Inl BadStateTransition
      else Inr (bondValidator s validator))"

definition unbondingToUnbonded :: "State \<Rightarrow> Validator \<Rightarrow> error + Validator \<times> State" where
  "unbondingToUnbonded s validator =
     (if Status validator \<noteq> Unbonding then Inl BadStateTransition
      else Inr (completeUnbondingValidator s validator))"

definition jailValidator :: "State \<Rightarrow> Validator \<Rightarrow> error + State" where
  "jailValidator s validator =
     (if Jailed validator then Inl AlreadyJailed
      else
        (let validator1 = validator\<lparr>Jailed := True\<rparr>;
             s1 = SetValidator s validator1
         in Inr (DeleteValidatorByPowerIndex s1 validator1)))"

definition unjailValidator :: "State \<Rightarrow> Validator \<Rightarrow> error + State" where
  "unjailValidator s validator =
     (if \<not> Jailed validator then Inl AlreadyUnjailed
      else
        (let validator1 = validator\<lparr>Jailed := False\<rparr>;
             s1 = SetValidator s validator1
         in Inr (SetValidatorByPowerIndex s1 validator1)))"

section \<open>Validator-set updates (part_000)\<close>

text \<open>
  \<^verbatim>\<open>SetLastValidatorPower\<close>, \<^verbatim>\<open>DeleteLastValidatorPower\<close> and \<^verbatim>\<open>SetLastTotalPower\<close>
  (keeper.go) are not under src/. Modelled from the spec: the snapshot keyspace maps an
  operator address to the power last sent to the consensus engine (section 3), and the
  total bonded power is persisted beside it (section 4.3, step 5). The serialisation of a
  power is injective, so \<^verbatim>\<open>bytes.Equal\<close> on two serialised powers is equality of the
  powers.
\<close>

definition SetLastValidatorPower :: "State \<Rightarrow> ValAddress \<Rightarrow> int \<Rightarrow> State" where
  "SetLastValidatorPower s operator pwr =
     s\<lparr>lastValidatorPower := AList.update operator pwr (lastValidatorPower s)\<rparr>"

definition DeleteLastValidatorPower :: "State \<Rightarrow> ValAddress \<Rightarrow> State" where
  "DeleteLastValidatorPower s operator =
     s\<lparr>lastValidatorPower := AList.delete operator (lastValidatorPower s)\<rparr>"

definition SetLastTotalPower :: "State \<Rightarrow> int \<Rightarrow> State" where
  "SetLastTotalPower s pwr = s\<lparr>lastTotalPower := pwr\<rparr>"

text \<open>
  The Go map \<^verbatim>\<open>validatorsByAddr\<close> is an association list with one entry per key: it is
  built by inserting the entries of the snapshot keyspace in key order.
\<close>

definition getLastValidatorsByAddr :: "State \<Rightarrow> (ValAddress \<times> int) list" where
  "getLastValidatorsByAddr s =
     fold (\<lambda>(operator, powerBytes) m. AList.update operator powerBytes m)
       (sort_key fst (lastValidatorPower s)) []"

definition sortNoLongerBonded :: "(ValAddress \<times> int) list \<Rightarrow> ValAddress list" where
  "sortNoLongerBonded lastm = sort (map fst lastm)"

text \<open>
  The reverse prefix iterator over the power index yields the operators in descending key
  order. The store handed to the keeper is a write-through cache whose iterators are built
  from the contents at creation, so the loop walks the index as it was when the iterator
  was opened, while the body rewrites entries.
\<close>

definition powerIndexIterator :: "State \<Rightarrow> ValAddress list" where
  "powerIndexIterator s = map snd (rev (sort_key fst (validatorsByPower s)))"

text \<open>The local variables of \<^verbatim>\<open>ApplyAndReturnValidatorSetUpdates\<close>, with the store.\<close>

record Locals =
  store :: State
  lastm :: "(ValAddress \<times> int) list"
  newVals :: "Validator list"
  updates :: "ValidatorUpdate list"
  count :: nat
  totalPower :: int

text \<open>
  One pass through the body of the candidate loop, lines 44 to 96. \<open>Inr None\<close> is the
  \<^verbatim>\<open>break\<close> of line 56.
\<close>

definition candidateBody :: "Locals \<Rightarrow> ValAddress \<Rightarrow> error + Locals option" where
  "candidateBody l operator =
     (case mustGetValidator (store l) operator of
        Inl e \<Rightarrow> Inl e
      | Inr validator \<Rightarrow>
          if Jailed validator then Inl JailedInPowerStore
          else if Tokens validator = 0 then Inr None
          else
            (case (case Status validator of
                     Unbonded \<Rightarrow> unbondedToBonded (store l) validator
                   | Unbonding \<Rightarrow> unbondingToBonded (store l) validator
                   | Bonded \<Rightarrow> Inr (validator, store l)) of
               Inl e \<Rightarrow> Inl e
             | Inr (validator1, s1) \<Rightarrow>
                 (let newPower = BondedTokens_val validator1;
                      changed = (case map_of (lastm l) operator of
                                   None \<Rightarrow> True
                                 | Some oldPower \<Rightarrow> oldPower \<noteq> newPower);
                      updates1 = (if changed \<and> hasConsPubKey validator1
                                  then updates l @ [ABCIValidatorUpdate validator1]
                                  else updates l);
                      s2 = (if changed then SetLastValidatorPower s1 operator newPower else s1)
                  in Inr (Some (l\<lparr>store := s2,
                                   lastm := AList.delete operator (lastm l),
                                   newVals := newVals l @ [validator1],
                                   updates := updates1,
                                   count := count l + 1,
                                   totalPower := totalPower l + newPower\<rparr>)))))"

text \<open>The candidate loop, line 42: it runs while the iterator is valid and the count is
  below \<open>maxValidators\<close>.\<close>

fun candidateLoop :: "nat \<Rightarrow> ValAddress list \<Rightarrow> Locals \<Rightarrow> error + Locals" where
  "candidateLoop maxValidators [] l = Inr l"
| "candidateLoop maxValidators (operator # rest) l =
     (if count l < maxValidators
      then (case candidateBody l operator of
              Inl e \<Rightarrow> Inl e
            | Inr None \<Rightarrow> Inr l
            | Inr (Some l1) \<Rightarrow> candidateLoop maxValidators rest l1)
      else Inr l)"

text \<open>The body of the loop over the no-longer-bonded validators, lines 105 to 122. The
  validator returned by \<^verbatim>\<open>bondedToUnbonding\<close> is dropped, as in the source.\<close>

definition noLongerBondedBody :: "Locals \<Rightarrow> ValAddress \<Rightarrow> error + Locals" where
  "noLongerBondedBody l operator =
     (case mustGetValidator (store l) operator of
        Inl e \<Rightarrow> Inl e
      | Inr validator \<Rightarrow>
          (case bondedToUnbonding (store l) validator of
             Inl e \<Rightarrow> Inl e
           | Inr (_, s1) \<Rightarrow>
               (let s2 = (if Tokens validator = 0
                          then RemoveValidator s1 (OperatorAddr validator) else s1);
                    s3 = DeleteLastValidatorPower s2 operator;
                    updates1 = (if hasConsPubKey validator
                                then updates l @ [ABCIValidatorUpdateZero validator]
                                else updates l)
                in Inr (l\<lparr>store := s3, updates := updates1\<rparr>))))"

fun noLongerBondedLoop :: "ValAddress list \<Rightarrow> Locals \<Rightarrow> error + Locals" where
  "noLongerBondedLoop [] l = Inr l"
| "noLongerBondedLoop (operator # rest) l =
     (case noLongerBondedBody l operator of
        Inl e \<Rightarrow> Inl e
      | Inr l1 \<Rightarrow> noLongerBondedLoop rest l1)"

definition initLocals :: "State \<Rightarrow> Locals" where
  "initLocals s =
     \<lparr>store = s, lastm = getLastValidatorsByAddr s, newVals = [], updates = [],
      count = 0, totalPower = 0\<rparr>"

definition ApplyAndReturnValidatorSetUpdates ::
  "State \<Rightarrow> error + (Validator list \<times> ValidatorUpdate list) \<times> State" where
  "ApplyAndReturnValidatorSetUpdates s =
     (let maxValidators = MaxValidators (params s)
      in case candidateLoop maxValidators (powerIndexIterator s) (initLocals s) of
           Inl e \<Rightarrow> Inl e
         | Inr l1 \<Rightarrow>
             (case noLongerBondedLoop (sortNoLongerBonded (lastm l1)) l1 of
                Inl e \<Rightarrow> Inl e
              | Inr l2 \<Rightarrow>
                  (let s3 = (if length (updates l2) > 0
                             then SetLastTotalPower (store l2) (totalPower l2)
                             else store l2)
                   in Inr ((newVals l2, updates l2), s3))))"

section \<open>Draining the unbonding queue (msgs.go, package keeper)\<close>

text \<open>
  The iterator of \<^verbatim>\<open>ValidatorQueueIterator\<close> runs from the start of the queue keyspace
  to the key of \<open>endTime\<close> inclusive, in ascending key order; the keys are ordered as
  their times.
\<close>

definition ValidatorQueueIterator :: "State \<Rightarrow> Time \<Rightarrow> (Time \<times> ValAddress list) list" where
  "ValidatorQueueIterator s endTime =
     sort_key fst (filter (\<lambda>(t, _). t \<le> endTime) (validatorQueue s))"

text \<open>The inner loop of \<^verbatim>\<open>UnbondAllMatureValidatorQueue\<close> over one timeslice.\<close>

fun unbondTimeslice :: "ValAddress list \<Rightarrow> State \<Rightarrow> error + State" where
  "unbondTimeslice [] s = Inr s"
| "unbondTimeslice (valAddr # rest) s =
     (case GetValidator s valAddr of
        None \<Rightarrow> unbondTimeslice rest s
      | Some val \<Rightarrow>
          if \<not> IsUnbonding val then unbondTimeslice rest s
          else
            (case unbondingToUnbonded s val of
               Inl e \<Rightarrow> Inl e
             | Inr (_, s1) \<Rightarrow>
                 unbondTimeslice rest
                   (if DelegatorShares val = 0
                    then RemoveValidator s1 (OperatorAddr val) else s1)))"

fun unbondTimeslices :: "(Time \<times> ValAddress list) list \<Rightarrow> State \<Rightarrow> error + State" where
  "unbondTimeslices [] s = Inr s"
| "unbondTimeslices ((t, timeslice) # rest) s =
     (case unbondTimeslice timeslice s of
        Inl e \<Rightarrow> Inl e
      | Inr s1 \<Rightarrow>
          unbondTimeslices rest
            (s1\<lparr>validatorQueue := AList.delete t (validatorQueue s1)\<rparr>))"

definition UnbondAllMatureValidatorQueue :: "State \<Rightarrow> error + State" where
  "UnbondAllMatureValidatorQueue s =
     unbondTimeslices (ValidatorQueueIterator s (blockTime s)) s"

section \<open>Example data\<close>

text \<open>A main-chain validator and a store, used to run the functions on concrete inputs.\<close>

definition exValidator :: Validator where
  "exValidator =
     \<lparr>OperatorAddr = 1, ConsId = ConsPubKey (PubKeyBytes 11 21), SideChainId = [],
      Jailed = False, Status = Bonded, Tokens = 10, DelegatorShares = 10,
      BondHeight = 0, BondIntraTxCounter = 2, UnbondingHeight = 0, UnbondingMinTime = 0,
      Commission = \<lparr>Rate = 10, MaxRate = 50, MaxChangeRate = 5, UpdateTime = 0\<rparr>\<rparr>"

definition exState :: State where
  "exState =
     \<lparr>validators = Map.empty, validatorsByConsAddr = Map.empty, validatorsByPower = [],
      lastValidatorPower = [], lastTotalPower = 0, validatorQueue = [],
      pool = \<lparr>LooseTokens = 100, BondedTokens = 0\<rparr>, intraTxCounter = 5,
      params = \<lparr>MaxValidators = 2, UnbondingTime = 100\<rparr>,
      blockHeight = 7, blockTime = 1000, isDeliverTx = True, hasTx = False,
      hooks = True, hookCalls = [], pbsbServer = False, published = []\<rparr>"

text \<open>A share removal at exchange rate one, standing for \<^verbatim>\<open>RemoveDelShares\<close> in examples.\<close>

definition exRemoveDelShares :: "Validator \<Rightarrow> Pool \<Rightarrow> Dec \<Rightarrow> Validator \<times> Pool \<times> Dec" where
  "exRemoveDelShares v p d =
     (v\<lparr>Tokens := Tokens v - d, DelegatorShares := DelegatorShares v - d\<rparr>,
      (if Status v = Bonded
       then p\<lparr>LooseTokens := LooseTokens p + d, BondedTokens := BondedTokens p - d\<rparr>
       else p),
      d)"

text \<open>
  A store with six validators. Validator 1 is bonded and in the snapshot with power 9;
  validator 2 is a side-chain validator waiting to be bonded; validators 3 and 6 have no
  tokens; validators 4 and 5 were bonded last block and are jailed, so they are out of the
  power index: 4 has lost all its tokens but still has delegator shares, 5 has tokens and
  no shares.
\<close>

definition exSide :: Validator where
  "exSide = exValidator\<lparr>OperatorAddr := 2, ConsId := SideConsAddr 32, SideChainId := ''bsc'',
      Status := Unbonded, Tokens := 8, DelegatorShares := 8\<rparr>"

definition exZero :: Validator where
  "exZero = exValidator\<lparr>OperatorAddr := 3, ConsId := ConsPubKey (PubKeyBytes 13 23),
      Status := Unbonded, Tokens := 0, DelegatorShares := 0\<rparr>"

definition exLate :: Validator where
  "exLate = exValidator\<lparr>OperatorAddr := 6, ConsId := ConsPubKey (PubKeyBytes 16 26),
      Status := Unbonded, Tokens := 0, DelegatorShares := 0\<rparr>"

definition exSlashed :: Validator where
  "exSlashed = exValidator\<lparr>OperatorAddr := 4, ConsId := ConsPubKey (PubKeyBytes 14 24),
      Jailed := True, Tokens := 0, DelegatorShares := 5\<rparr>"

definition exEmptied :: Validator where
  "exEmptied = exValidator\<lparr>OperatorAddr := 5, ConsId := ConsPubKey (PubKeyBytes 15 25),
      Jailed := True, Tokens := 7, DelegatorShares := 0\<rparr>"

definition exStore :: State where
  "exStore = exState
     \<lparr>validators := [1 \<mapsto> exValidator, 2 \<mapsto> exSide, 3 \<mapsto> exZero, 4 \<mapsto> exSlashed,
                     5 \<mapsto> exEmptied, 6 \<mapsto> exLate],
      validatorsByPower :=
        [(GetValidatorsByPowerIndexKey exValidator, 1), (GetValidatorsByPowerIndexKey exSide, 2),
         (GetValidatorsByPowerIndexKey exZero, 3), (GetValidatorsByPowerIndexKey exLate, 6)],
      lastValidatorPower := [(1, 9), (4, 3), (5, 7)],
      pool := \<lparr>LooseTokens = 100, BondedTokens = 17\<rparr>\<rparr>"

text \<open>A token addition at exchange rate one, standing for \<^verbatim>\<open>AddTokensFromDel\<close> in examples.\<close>

definition exAddTokensFromDel :: "Validator \<Rightarrow> Pool \<Rightarrow> int \<Rightarrow> Validator \<times> Pool \<times> Dec" where
  "exAddTokensFromDel v p n =
     (v\<lparr>Tokens := Tokens v + n, DelegatorShares := DelegatorShares v + n\<rparr>,
      (if Status v = Bonded
       then p\<lparr>LooseTokens := LooseTokens p - n, BondedTokens := BondedTokens p + n\<rparr>
       else p),
      n)"

text \<open>
  Two bonded validators of the same bond height: validator 1 with 10 tokens and validator 7
  with 4 tokens, both indexed. First validator 7 receives 3 tokens, then 3 shares are
  removed from validator 1, after which both hold 7 tokens.
\<close>

definition exPeer :: Validator where
  "exPeer = exValidator\<lparr>OperatorAddr := 7, ConsId := ConsPubKey (PubKeyBytes 17 27),
      Tokens := 4, DelegatorShares := 4\<rparr>"

definition exPair :: State where
  "exPair = exState
     \<lparr>validators := [1 \<mapsto> exValidator, 7 \<mapsto> exPeer],
      validatorsByPower :=
        [(GetValidatorsByPowerIndexKey exValidator, 1), (GetValidatorsByPowerIndexKey exPeer, 7)],
      pool := \<lparr>LooseTokens = 100, BondedTokens = 14\<rparr>\<rparr>"

definition exPairAdded :: State where
  "exPairAdded = snd (AddValidatorTokensAndShares exAddTokensFromDel exPair exPeer 3)"

definition exPairRemoved :: State where
  "exPairRemoved =
     snd (RemoveValidatorTokensAndShares exRemoveDelShares exPairAdded exValidator 3)"

text \<open>
  A jailed validator written to the store and handed to \<^verbatim>\<open>SetNewValidatorByPowerIndex\<close>.
\<close>

definition exJailed :: Validator where
  "exJailed = exValidator\<lparr>Jailed := True\<rparr>"

definition exJailedIndexed :: State where
  "exJailedIndexed = SetNewValidatorByPowerIndex (SetValidator exState exJailed) exJailed"

text \<open>
  A store in which the power index still holds the entry of validator 1 under its former
  key, of 9 tokens, beside the entry under its present key.
\<close>

definition exStale :: State where
  "exStale = exState
     \<lparr>validators := [1 \<mapsto> exValidator],
      validatorsByPower :=
        [(GetValidatorsByPowerIndexKey exValidator, 1),
         (GetValidatorsByPowerIndexKey (exValidator\<lparr>Tokens := 9\<rparr>), 1)],
      lastValidatorPower := [(1, 9)],
      pool := \<lparr>LooseTokens = 100, BondedTokens = 10\<rparr>\<rparr>"

section \<open>Store predicates\<close>

text \<open>The validator has its entry in the power index: its key maps to its operator address.\<close>

definition inPowerIndex :: "State \<Rightarrow> Validator \<Rightarrow> bool" where
  "inPowerIndex s v =
     (map_of (validatorsByPower s) (GetValidatorsByPowerIndexKey v) = Some (OperatorAddr v))"

text \<open>
  Every record of the validator keyspace is stored under its own operator address, as
  \<^verbatim>\<open>SetValidator\<close> writes it (the key is \<^verbatim>\<open>GetValidatorKey(validator.OperatorAddr)\<close>).
\<close>

definition storeWf :: "State \<Rightarrow> bool" where
  "storeWf s =
     (\<forall>operator v. validators s operator = Some v \<longrightarrow> OperatorAddr v = operator)"

text \<open>
  The power index has one entry per key, and every entry lies at the key of the record
  stored under the operator address it names.
\<close>

definition powerIndexWf :: "State \<Rightarrow> bool" where
  "powerIndexWf s =
     (distinct (map fst (validatorsByPower s)) \<and>
      (\<forall>(k, operator) \<in> set (validatorsByPower s).
         map_option GetValidatorsByPowerIndexKey (validators s operator) = Some k))"

section \<open>Removing a validator\<close>

text \<open>
  C10. Calling \<^verbatim>\<open>RemoveValidator\<close> with an operator address that has no validator record
  returns without a panic and leaves the whole store, and everything else in the state,
  as it was.
\<close>

theorem RemoveValidator_missing_noop:
  "GetValidator s address = None \<Longrightarrow> RemoveValidator s address = s"
  by (simp add: RemoveValidator_def)

theorem RemoveValidator_missing_noop_witness:
  "GetValidator (SetValidator exState exValidator) 7 = None \<and>
   RemoveValidator (SetValidator exState exValidator) 7 = SetValidator exState exValidator"
  using RemoveValidator_missing_noop [of "SetValidator exState exValidator" 7]
  by (simp add: GetValidator_def SetValidator_def publish_def exState_def exValidator_def)

text \<open>
  C6, as the code has it. For an operator with a record, \<^verbatim>\<open>RemoveValidator\<close> deletes the
  record, the consensus-address index entry and the power-index entry of the stored
  validator. It calls no lifecycle hook; it publishes a \<^verbatim>\<open>ValidatorRemovedEvent\<close> exactly
  when a publisher is configured and the context is a DeliverTx one.
\<close>

theorem RemoveValidator_deletes_and_publishes:
  assumes "GetValidator s address = Some validator"
  shows "validators (RemoveValidator s address) address = None \<and>
     validatorsByConsAddr (RemoveValidator s address) (consAddrOf validator) = None \<and>
     map_of (validatorsByPower (RemoveValidator s address))
        (GetValidatorsByPowerIndexKey validator) = None \<and>
     hookCalls (RemoveValidator s address) = hookCalls s \<and>
     published (RemoveValidator s address) =
       (if pbsbServer s \<and> isDeliverTx s
        then published s @
               [ValidatorRemovedEvent (hasTx s) (OperatorAddr validator) (SideChainId validator)]
        else published s)"
  using assms by (simp add: RemoveValidator_def publish_def Let_def AList.delete_conv')

theorem RemoveValidator_deletes_and_publishes_witness:
  "GetValidator (SetValidator (exState\<lparr>pbsbServer := True\<rparr>) exValidator) 1 = Some exValidator \<and>
   validators (RemoveValidator (SetValidator (exState\<lparr>pbsbServer := True\<rparr>) exValidator) 1) 1
     = None \<and>
   hookCalls (RemoveValidator (SetValidator (exState\<lparr>pbsbServer := True\<rparr>) exValidator) 1)
     = [] \<and>
   published (RemoveValidator (SetValidator (exState\<lparr>pbsbServer := True\<rparr>) exValidator) 1)
     = [ValidatorUpdateEvent False exValidator, ValidatorRemovedEvent False 1 []]"
  using RemoveValidator_deletes_and_publishes
          [of "SetValidator (exState\<lparr>pbsbServer := True\<rparr>) exValidator" 1 exValidator]
  by (simp add: GetValidator_def SetValidator_def publish_def exState_def exValidator_def)

text \<open>
  C6 as stated fails: with hooks installed and no publisher configured, removing an
  existing validator calls no hook and publishes nothing.
\<close>

theorem RemoveValidator_fires_no_hook_counterexample:
  "hooks (SetValidator exState exValidator) \<and>
   GetValidator (SetValidator exState exValidator) 1 = Some exValidator \<and>
   validators (RemoveValidator (SetValidator exState exValidator) 1) 1 = None \<and>
   hookCalls (RemoveValidator (SetValidator exState exValidator) 1) = [] \<and>
   published (RemoveValidator (SetValidator exState exValidator) 1) = []"
  by (simp add: RemoveValidator_def GetValidator_def SetValidator_def publish_def
      exState_def exValidator_def Let_def)

section \<open>Commission updates\<close>

text \<open>
  C8. When the proposed rate fails validation, \<^verbatim>\<open>UpdateValidatorCommission\<close> returns the
  error with the validator's commission as it was, and the state is unchanged. This holds
  for every validation function, so for each of the three failures.
\<close>

theorem UpdateValidatorCommission_invalid_unmodified:
  "validateNewRate (Commission validator) newRate (blockTime s) = Some err \<Longrightarrow>
   UpdateValidatorCommission validateNewRate s validator newRate =
     ((Commission validator, Some err), s)"
  by (simp add: UpdateValidatorCommission_def)

theorem UpdateValidatorCommission_invalid_unmodified_witness:
  "ValidateNewRate 86400 (Commission exValidator) 12 (blockTime exState)
     = Some ErrCommissionUpdateTime \<and>
   UpdateValidatorCommission (ValidateNewRate 86400) exState exValidator 12
     = ((Commission exValidator, Some ErrCommissionUpdateTime), exState) \<and>
   ValidateNewRate 86400 (Commission exValidator) 60 (blockTime (exState\<lparr>blockTime := 100000\<rparr>))
     = Some ErrCommissionGTMaxRate \<and>
   UpdateValidatorCommission (ValidateNewRate 86400) (exState\<lparr>blockTime := 100000\<rparr>)
       exValidator 60
     = ((Commission exValidator, Some ErrCommissionGTMaxRate), exState\<lparr>blockTime := 100000\<rparr>) \<and>
   ValidateNewRate 86400 (Commission exValidator) 20 (blockTime (exState\<lparr>blockTime := 100000\<rparr>))
     = Some ErrCommissionGTMaxChangeRate \<and>
   UpdateValidatorCommission (ValidateNewRate 86400) (exState\<lparr>blockTime := 100000\<rparr>)
       exValidator 20
     = ((Commission exValidator, Some ErrCommissionGTMaxChangeRate),
        exState\<lparr>blockTime := 100000\<rparr>)"
proof -
  have a: "ValidateNewRate 86400 (Commission exValidator) 12 (blockTime exState)
     = Some ErrCommissionUpdateTime"
    by (simp add: ValidateNewRate_def exValidator_def exState_def)
  have b: "ValidateNewRate 86400 (Commission exValidator) 60
       (blockTime (exState\<lparr>blockTime := 100000\<rparr>)) = Some ErrCommissionGTMaxRate"
    by (simp add: ValidateNewRate_def exValidator_def exState_def)
  have c: "ValidateNewRate 86400 (Commission exValidator) 20
       (blockTime (exState\<lparr>blockTime := 100000\<rparr>)) = Some ErrCommissionGTMaxChangeRate"
    by (simp add: ValidateNewRate_def exValidator_def exState_def)
  show ?thesis
    using a b c
      UpdateValidatorCommission_invalid_unmodified
        [of "ValidateNewRate 86400" exValidator 12 exState ErrCommissionUpdateTime]
      UpdateValidatorCommission_invalid_unmodified
        [of "ValidateNewRate 86400" exValidator 60 "exState\<lparr>blockTime := 100000\<rparr>"
            ErrCommissionGTMaxRate]
      UpdateValidatorCommission_invalid_unmodified
        [of "ValidateNewRate 86400" exValidator 20 "exState\<lparr>blockTime := 100000\<rparr>"
            ErrCommissionGTMaxChangeRate]
    by simp
qed

section \<open>The intra-tx counter\<close>

text \<open>
  What the two token mutations do with the counter, for every validator and state:
  \<^verbatim>\<open>AddValidatorTokensAndShares\<close> gives the validator the stored counter and stores its
  successor (which wraps around at the width of the counter);
  \<^verbatim>\<open>RemoveValidatorTokensAndShares\<close> returns the validator as \<^verbatim>\<open>RemoveDelShares\<close>
  produced it and leaves the stored counter alone.
\<close>

lemma AddValidatorTokensAndShares_counter:
  "BondIntraTxCounter (fst (fst (AddValidatorTokensAndShares f s v n))) = GetIntraTxCounter s"
  "GetIntraTxCounter (snd (AddValidatorTokensAndShares f s v n)) = GetIntraTxCounter s + 1"
  by (simp_all add: AddValidatorTokensAndShares_def Let_def GetIntraTxCounter_def
      SetIntraTxCounter_def SetValidator_def publish_def SetPool_def GetPool_def
      SetValidatorByPowerIndex_def DeleteValidatorByPowerIndex_def split: prod.splits)

lemma RemoveValidatorTokensAndShares_counter:
  "fst (fst (RemoveValidatorTokensAndShares g s v d)) = fst (g v (GetPool s) d)"
  "GetIntraTxCounter (snd (RemoveValidatorTokensAndShares g s v d)) = GetIntraTxCounter s"
  by (simp_all add: RemoveValidatorTokensAndShares_def Let_def GetIntraTxCounter_def
      SetValidator_def publish_def SetPool_def GetPool_def SetValidatorByPowerIndex_def
      DeleteValidatorByPowerIndex_def split: prod.splits)

text \<open>
  C3: the removal of shares assigns no fresh counter. In the store of validators 1 and 7
  the stored counter is 5. Validator 7 receives 3 tokens: it holds 7 tokens and carries the
  counter 5, and the stored counter is 6. Then 3 shares are removed from validator 1: it
  holds 7 tokens as well and still carries its old counter 2, and the stored counter is
  still 6. The two validators now have identical power and bond height; the power of
  validator 7 changed less recently, yet validator 1 carries the earlier counter and comes
  first in the power index. The addition path, with the comment "in case of a conflict, the
  validator which least recently changed power takes precedence", assigns the counter;
  the removal path misses the assignment.
\<close>

theorem RemoveValidatorTokensAndShares_keeps_old_counter:
  "GetIntraTxCounter exPair = 5 \<and>
   GetValidator exPairAdded 7 =
     Some (exPeer\<lparr>Tokens := 7, DelegatorShares := 7, BondIntraTxCounter := 5\<rparr>) \<and>
   GetIntraTxCounter exPairAdded = 6 \<and>
   GetValidator exPairRemoved 7 =
     Some (exPeer\<lparr>Tokens := 7, DelegatorShares := 7, BondIntraTxCounter := 5\<rparr>) \<and>
   GetValidator exPairRemoved 1 = Some (exValidator\<lparr>Tokens := 7, DelegatorShares := 7\<rparr>) \<and>
   BondIntraTxCounter (exValidator\<lparr>Tokens := 7, DelegatorShares := 7\<rparr>) = 2 \<and>
   GetIntraTxCounter exPairRemoved = 6 \<and>
   powerIndexIterator exPairRemoved = [1, 7]"
  by (simp add: exPairRemoved_def exPairAdded_def exPair_def exPeer_def exState_def
      exValidator_def exAddTokensFromDel_def exRemoveDelShares_def
      AddValidatorTokensAndShares_def RemoveValidatorTokensAndShares_def Let_def
      GetIntraTxCounter_def SetIntraTxCounter_def GetValidator_def SetValidator_def
      publish_def SetPool_def GetPool_def SetValidatorByPowerIndex_def
      DeleteValidatorByPowerIndex_def GetValidatorsByPowerIndexKey_def powerIndexIterator_def
      AList.delete_eq less_eq_prod_def sort_key_def)

section \<open>Jailing and the power index\<close>

text \<open>
  C4: \<^verbatim>\<open>SetNewValidatorByPowerIndex\<close> inserts the entry of a jailed validator. The sibling
  \<^verbatim>\<open>SetValidatorByPowerIndex\<close>, under the comment "jailed validators are not kept in the
  power index", leaves the index empty on the same input. After the unguarded insertion
  the validator is stored as jailed and has its entry in the power index, and
  \<^verbatim>\<open>ApplyAndReturnValidatorSetUpdates\<close> on that store panics with "should never retrieve a
  jailed validator from the power store".
\<close>

theorem SetNewValidatorByPowerIndex_indexes_jailed:
  "Jailed exJailed \<and>
   validatorsByPower (SetValidatorByPowerIndex (SetValidator exState exJailed) exJailed) = [] \<and>
   GetValidator exJailedIndexed 1 = Some exJailed \<and>
   inPowerIndex exJailedIndexed exJailed \<and>
   ApplyAndReturnValidatorSetUpdates exJailedIndexed = Inl JailedInPowerStore"
  by (simp add: exJailedIndexed_def exJailed_def exState_def exValidator_def inPowerIndex_def
      SetNewValidatorByPowerIndex_def SetValidatorByPowerIndex_def SetValidator_def
      publish_def GetValidator_def GetValidatorsByPowerIndexKey_def
      ApplyAndReturnValidatorSetUpdates_def initLocals_def getLastValidatorsByAddr_def
      powerIndexIterator_def candidateBody_def mustGetValidator_def Let_def)

section \<open>Draining the unbonding queue twice\<close>

lemma queue_RemoveValidator:
  "validatorQueue (RemoveValidator s a) = validatorQueue s"
  "blockTime (RemoveValidator s a) = blockTime s"
  by (simp_all add: RemoveValidator_def Let_def publish_def split: option.splits)

lemma queue_completeUnbonding:
  "validatorQueue (snd (completeUnbondingValidator s v)) = validatorQueue s"
  "blockTime (snd (completeUnbondingValidator s v)) = blockTime s"
  by (simp_all add: completeUnbondingValidator_def Let_def SetValidator_def SetPool_def
      publish_def split: prod.splits)

text \<open>The inner loop never panics and leaves the queue and the block time alone.\<close>

lemma unbondTimeslice_total:
  "\<exists>s'. unbondTimeslice sl s = Inr s' \<and> validatorQueue s' = validatorQueue s \<and>
        blockTime s' = blockTime s"
proof (induction sl arbitrary: s)
  case Nil
  then show ?case by simp
next
  case (Cons a sl)
  show ?case
  proof (cases "GetValidator s a")
    case None
    then show ?thesis using Cons.IH [of s] by simp
  next
    case (Some val)
    show ?thesis
    proof (cases "IsUnbonding val")
      case False
      then show ?thesis using Some Cons.IH [of s] by simp
    next
      case True
      obtain v1 s1 where c: "completeUnbondingValidator s val = (v1, s1)"
        by (cases "completeUnbondingValidator s val")
      have q: "validatorQueue s1 = validatorQueue s" "blockTime s1 = blockTime s"
        using queue_completeUnbonding [of s val] c by simp_all
      have u: "unbondingToUnbonded s val = Inr (v1, s1)"
        using True c by (simp add: unbondingToUnbonded_def IsUnbonding_def)
      show ?thesis
        using Some True u q
          Cons.IH [of "if DelegatorShares val = 0
                       then RemoveValidator s1 (OperatorAddr val) else s1"]
        by (auto simp: queue_RemoveValidator split: if_splits)
    qed
  qed
qed

lemma unbondTimeslices_total:
  "\<exists>s'. unbondTimeslices sls s = Inr s' \<and> blockTime s' = blockTime s \<and>
      validatorQueue s' = fold (\<lambda>(t, _) q. AList.delete t q) sls (validatorQueue s)"
proof (induction sls arbitrary: s)
  case Nil
  then show ?case by simp
next
  case (Cons p sls)
  obtain t sl where p: "p = (t, sl)" by (cases p)
  obtain s1 where s1: "unbondTimeslice sl s = Inr s1"
    "validatorQueue s1 = validatorQueue s" "blockTime s1 = blockTime s"
    using unbondTimeslice_total [of sl s] by blast
  show ?case
    using p s1 Cons.IH [of "s1\<lparr>validatorQueue := AList.delete t (validatorQueue s1)\<rparr>"]
    by auto
qed

lemma fold_delete_keys:
  "fst ` set (fold (\<lambda>(t, _) q. AList.delete t q) sls q) = fst ` set q - fst ` set sls"
proof (induction sls arbitrary: q)
  case Nil
  then show ?case by simp
next
  case (Cons p sls)
  obtain t sl where p: "p = (t, sl)" by (cases p)
  have "fst ` set (AList.delete t q) = fst ` set q - {t}"
    by (auto simp: AList.delete_eq image_iff)
  then show ?case using Cons.IH [of "AList.delete t q"] p by auto
qed

lemma iterator_keys:
  "fst ` set (ValidatorQueueIterator s T) = {t \<in> fst ` set (validatorQueue s). t \<le> T}"
  by (auto simp: ValidatorQueueIterator_def image_iff)

lemma iterator_empty:
  assumes "\<forall>t \<in> fst ` set (validatorQueue s). \<not> t \<le> T"
  shows "ValidatorQueueIterator s T = []"
proof -
  have "filter (\<lambda>(t, _). t \<le> T) (validatorQueue s) = []"
    using assms by (auto simp: filter_empty_conv)
  then show ?thesis by (simp add: ValidatorQueueIterator_def)
qed

text \<open>
  C7. \<^verbatim>\<open>UnbondAllMatureValidatorQueue\<close> always returns, and a second call at the same
  block time on the state it returned gives back that state unchanged: no status
  transition, no removal, no hook call and no published event, since all of these are
  part of the state.
\<close>

theorem UnbondAllMatureValidatorQueue_idempotent:
  "\<exists>s'. UnbondAllMatureValidatorQueue s = Inr s' \<and> blockTime s' = blockTime s \<and>
        UnbondAllMatureValidatorQueue s' = Inr s'"
proof -
  obtain s' where s': "unbondTimeslices (ValidatorQueueIterator s (blockTime s)) s = Inr s'"
     "blockTime s' = blockTime s"
     "validatorQueue s' =
        fold (\<lambda>(t, _) q. AList.delete t q) (ValidatorQueueIterator s (blockTime s))
          (validatorQueue s)"
    using unbondTimeslices_total by blast
  have "fst ` set (validatorQueue s') =
      fst ` set (validatorQueue s) - {t \<in> fst ` set (validatorQueue s). t \<le> blockTime s}"
    by (simp only: s'(3) fold_delete_keys iterator_keys)
  then have "\<forall>t \<in> fst ` set (validatorQueue s'). \<not> t \<le> blockTime s'"
    using s'(2) by auto
  then have "ValidatorQueueIterator s' (blockTime s') = []" by (rule iterator_empty)
  then show ?thesis using s' by (simp add: UnbondAllMatureValidatorQueue_def)
qed

section \<open>Effects of the loop bodies on the validator keyspace\<close>

lemma validators_prims:
  "validators (publish s e) = validators s"
  "validators (SetValidator s v) = (validators s)(OperatorAddr v \<mapsto> v)"
  "validators (SetValidatorByPowerIndex s v) = validators s"
  "validators (DeleteValidatorByPowerIndex s v) = validators s"
  "validators (SetPool s p) = validators s"
  "validators (callHook s c) = validators s"
  "validators (InsertValidatorQueue s v) = validators s"
  "validators (SetLastValidatorPower s operator pw) = validators s"
  "validators (DeleteLastValidatorPower s operator) = validators s"
  "validators (SetLastTotalPower s pw) = validators s"
  by (simp_all add: publish_def SetValidator_def SetValidatorByPowerIndex_def
      DeleteValidatorByPowerIndex_def SetPool_def callHook_def InsertValidatorQueue_def
      SetValidatorQueueTimeSlice_def SetLastValidatorPower_def DeleteLastValidatorPower_def
      SetLastTotalPower_def Let_def)

lemma validators_RemoveValidator:
  "validators (RemoveValidator s a) = (validators s)(a := None)"
  by (auto simp: RemoveValidator_def GetValidator_def Let_def publish_def split: option.splits)

lemma fst_UpdateStatus: "fst (UpdateStatus v p st) = v\<lparr>Status := st\<rparr>"
  by (simp add: UpdateStatus_def Let_def)

lemma bondValidator_effect:
  "fst (bondValidator s v) = v\<lparr>BondHeight := blockHeight s, Status := Bonded\<rparr>"
  "validators (snd (bondValidator s v)) =
     (validators s)(OperatorAddr v \<mapsto> v\<lparr>BondHeight := blockHeight s, Status := Bonded\<rparr>)"
  by (simp_all add: bondValidator_def Let_def validators_prims UpdateStatus_def
      DeleteValidatorByPowerIndex_def split: prod.splits)

lemma beginUnbondingValidator_effect:
  assumes "beginUnbondingValidator s v = Inr (v1, s1)"
  shows "Status v = Bonded"
    "validators s1 = (validators s)(OperatorAddr v \<mapsto> v1)"
    "OperatorAddr v1 = OperatorAddr v" "ConsId v1 = ConsId v" "Tokens v1 = Tokens v"
    "Status v1 = Unbonding"
  using assms
  by (auto simp: beginUnbondingValidator_def Let_def validators_prims UpdateStatus_def
      DeleteValidatorByPowerIndex_def SetPool_def split: prod.splits if_splits)

lemma candidateBody_Some:
  assumes "candidateBody l operator = Inr (Some l1)"
  obtains validator validator1 where
    "validators (store l) operator = Some validator" "\<not> Jailed validator" "Tokens validator \<noteq> 0"
    "validator1 = (if Status validator = Bonded then validator
                   else validator\<lparr>BondHeight := blockHeight (store l), Status := Bonded\<rparr>)"
    "validators (store l1) = (validators (store l))(OperatorAddr validator \<mapsto> validator1)
       \<or> (validators (store l1) = validators (store l) \<and> validator1 = validator)"
    "lastm l1 = AList.delete operator (lastm l)"
    "count l1 = Suc (count l)"
    "updates l1 = (if map_of (lastm l) operator \<noteq> Some (Tokens validator) \<and> hasConsPubKey validator
                   then updates l @ [ABCIValidatorUpdate validator1] else updates l)"
    "newVals l1 = newVals l @ [validator1]"
proof -
  from assms obtain validator where v: "validators (store l) operator = Some validator"
    by (auto simp: candidateBody_def mustGetValidator_def GetValidator_def split: option.splits)
  from assms v have nj: "\<not> Jailed validator" and nz: "Tokens validator \<noteq> 0"
    by (auto simp: candidateBody_def mustGetValidator_def GetValidator_def split: if_splits)
  define validator1 where "validator1 = (if Status validator = Bonded then validator
                   else validator\<lparr>BondHeight := blockHeight (store l), Status := Bonded\<rparr>)"
  define s1 where "s1 = (if Status validator = Bonded then store l else snd (bondValidator (store l) validator))"
  have tr: "(case Status validator of
                     Unbonded \<Rightarrow> unbondedToBonded (store l) validator
                   | Unbonding \<Rightarrow> unbondingToBonded (store l) validator
                   | Bonded \<Rightarrow> Inr (validator, store l)) = Inr (validator1, s1)"
    by (cases "Status validator")
       (simp_all add: validator1_def s1_def unbondedToBonded_def unbondingToBonded_def
          bondValidator_effect(1)[symmetric] )
  have bt: "BondedTokens_val validator1 = Tokens validator"
    by (simp add: validator1_def BondedTokens_val_def)
  have hc: "hasConsPubKey validator1 = hasConsPubKey validator"
    by (simp add: validator1_def)
  have ch: "(case map_of (lastm l) operator of None \<Rightarrow> True
             | Some oldPower \<Rightarrow> oldPower \<noteq> BondedTokens_val validator1)
       = (map_of (lastm l) operator \<noteq> Some (Tokens validator))"
    by (auto simp: bt split: option.splits)
  have l1: "l1 = l\<lparr>store := (if map_of (lastm l) operator \<noteq> Some (Tokens validator)
                              then SetLastValidatorPower s1 operator (Tokens validator) else s1),
                    lastm := AList.delete operator (lastm l),
                    newVals := newVals l @ [validator1],
                    updates := (if map_of (lastm l) operator \<noteq> Some (Tokens validator) \<and> hasConsPubKey validator
                   then updates l @ [ABCIValidatorUpdate validator1] else updates l),
                    count := count l + 1,
                    totalPower := totalPower l + Tokens validator\<rparr>"
    using assms v nj nz
    unfolding candidateBody_def mustGetValidator_def GetValidator_def
    by (auto simp add: tr ch bt hc Let_def simp del: hasConsPubKey.simps)
  have vs: "validators (store l1) = validators s1"
    by (subst l1) (simp add: validators_prims)
  have vs1: "validators s1 = (validators (store l))(OperatorAddr validator \<mapsto> validator1)
       \<or> (validators s1 = validators (store l) \<and> validator1 = validator)"
    by (simp add: s1_def validator1_def bondValidator_effect)
  show ?thesis
    apply (rule that[of validator validator1])
    using v nj nz validator1_def vs vs1 apply simp_all
    by (subst l1, simp)+
qed


lemma candidateBody_step:
  assumes "candidateBody l operator = Inr (Some l1)" "storeWf (store l)"
  obtains validator validator1 where
    "validators (store l) operator = Some validator"
    "validators (store l1) = (validators (store l))(operator \<mapsto> validator1)"
    "OperatorAddr validator1 = operator" "ConsId validator1 = ConsId validator"
    "Status validator1 = Bonded" "Tokens validator1 \<noteq> 0"
    "lastm l1 = AList.delete operator (lastm l)" "count l1 = Suc (count l)"
    "updates l1 = updates l \<or>
       (hasConsPubKey validator \<and> updates l1 = updates l @ [ABCIValidatorUpdate validator1])"
    "storeWf (store l1)"
proof -
  from assms(1) obtain validator validator1 where c:
    "validators (store l) operator = Some validator" "\<not> Jailed validator" "Tokens validator \<noteq> 0"
    "validator1 = (if Status validator = Bonded then validator
                   else validator\<lparr>BondHeight := blockHeight (store l), Status := Bonded\<rparr>)"
    "validators (store l1) = (validators (store l))(OperatorAddr validator \<mapsto> validator1)
       \<or> (validators (store l1) = validators (store l) \<and> validator1 = validator)"
    "lastm l1 = AList.delete operator (lastm l)"
    "count l1 = Suc (count l)"
    "updates l1 = (if map_of (lastm l) operator \<noteq> Some (Tokens validator) \<and> hasConsPubKey validator
                   then updates l @ [ABCIValidatorUpdate validator1] else updates l)"
    by (rule candidateBody_Some)
  have oa: "OperatorAddr validator = operator"
    using assms(2) c(1) by (simp add: storeWf_def)
  have v1: "OperatorAddr validator1 = operator" "ConsId validator1 = ConsId validator"
     "Status validator1 = Bonded" "Tokens validator1 \<noteq> 0"
    using c(3,4) oa by (auto split: if_splits)
  have vs: "validators (store l1) = (validators (store l))(operator \<mapsto> validator1)"
    using c(5) c(1) oa by (auto simp: map_upd_triv)
  have wf: "storeWf (store l1)"
    using assms(2) v1(1) unfolding storeWf_def vs by auto
  show ?thesis
    by (rule that[of validator validator1]) (use c v1 vs wf in \<open>auto split: if_splits\<close>)
qed

lemma noLongerBondedBody_step:
  assumes "noLongerBondedBody l operator = Inr l1" "storeWf (store l)"
  obtains validator where
    "validators (store l) operator = Some validator"
    "Tokens validator = 0 \<longrightarrow> validators (store l1) = (validators (store l))(operator := None)"
    "Tokens validator \<noteq> 0 \<longrightarrow>
       (\<exists>v1. validators (store l1) = (validators (store l))(operator \<mapsto> v1) \<and>
            OperatorAddr v1 = operator \<and> ConsId v1 = ConsId validator \<and>
            Status v1 = Unbonding)"
    "updates l1 = (if hasConsPubKey validator
                   then updates l @ [ABCIValidatorUpdateZero validator] else updates l)"
    "storeWf (store l1)" "Status validator = Bonded"
proof -
  from assms(1) obtain validator where v: "validators (store l) operator = Some validator"
    by (auto simp: noLongerBondedBody_def mustGetValidator_def GetValidator_def split: option.splits)
  have oa: "OperatorAddr validator = operator"
    using assms(2) v by (simp add: storeWf_def)
  from assms(1) v obtain v1 s1 where b: "beginUnbondingValidator (store l) validator = Inr (v1, s1)"
    by (auto simp: noLongerBondedBody_def mustGetValidator_def GetValidator_def bondedToUnbonding_def
        split: if_splits sum.splits)
  have l1: "l1 = l\<lparr>store := DeleteLastValidatorPower
                     (if Tokens validator = 0 then RemoveValidator s1 (OperatorAddr validator) else s1)
                     operator,
                   updates := (if hasConsPubKey validator
                                then updates l @ [ABCIValidatorUpdateZero validator]
                                else updates l)\<rparr>"
    using assms(1) v b beginUnbondingValidator_effect(1)[OF b]
    by (auto simp: noLongerBondedBody_def mustGetValidator_def GetValidator_def bondedToUnbonding_def
        Let_def simp del: hasConsPubKey.simps)
  note e = beginUnbondingValidator_effect[OF b]
  have vs0: "Tokens validator = 0 \<Longrightarrow> validators (store l1) = (validators (store l))(operator := None)"
    by (subst l1) (simp add: validators_prims validators_RemoveValidator e oa)
  have vs1: "Tokens validator \<noteq> 0 \<Longrightarrow> validators (store l1) = (validators (store l))(operator \<mapsto> v1)"
    by (subst l1) (simp add: validators_prims e oa)
  have wf: "storeWf (store l1)"
  proof (cases "Tokens validator = 0")
    case True
    then show ?thesis using assms(2) vs0 by (auto simp: storeWf_def)
  next
    case False
    then show ?thesis using assms(2) vs1 e(3) oa by (auto simp: storeWf_def)
  qed
  have up: "updates l1 = (if hasConsPubKey validator
                   then updates l @ [ABCIValidatorUpdateZero validator] else updates l)"
    by (subst l1) simp
  show ?thesis
    by (rule that[of validator]) (use v vs0 vs1 e oa wf up in auto)
qed

text \<open>
  C5. When the candidate iteration reaches a validator that is not jailed and has no tokens,
  it ends there: the loop over \<open>pre @ operator # post\<close> returns exactly what the loop
  over \<open>pre\<close> returns, whatever follows in \<open>post\<close>. So no later validator is
  bonded, counted or given an update record by the candidate loop.
\<close>

theorem zero_power_candidate_ends_iteration:
  assumes "storeWf (store l)" "validators (store l) operator = Some validator"
    "\<not> Jailed validator" "Tokens validator = 0"
  shows "candidateLoop maxValidators (pre @ operator # post) l = candidateLoop maxValidators pre l"
  using assms
proof (induction pre arbitrary: l)
  case Nil
  then have "candidateBody l operator = Inr None"
    by (simp add: candidateBody_def mustGetValidator_def GetValidator_def)
  then show ?case by simp
next
  case (Cons p pre)
  show ?case
  proof (cases "count l < maxValidators")
    case False
    then show ?thesis by simp
  next
    case True
    show ?thesis
    proof (cases "candidateBody l p")
      case (Inl e)
      then show ?thesis using True by simp
    next
      case (Inr r)
      show ?thesis
      proof (cases r)
        case None
        then show ?thesis using True Inr by simp
      next
        case (Some l1)
        have b: "candidateBody l p = Inr (Some l1)" using Inr Some by simp
        have ne: "p \<noteq> operator"
          using b Cons.prems
          by (auto simp: candidateBody_def mustGetValidator_def GetValidator_def)
        obtain validator0 validator1 :: Validator where
          st: "validators (store l1) = (validators (store l))(p \<mapsto> validator1)"
            "storeWf (store l1)"
          by (rule candidateBody_step [OF b Cons.prems(1)]) blast
        have "validators (store l1) operator = Some validator"
          using st(1) ne Cons.prems(2) by simp
        then have "candidateLoop maxValidators (pre @ operator # post) l1 =
            candidateLoop maxValidators pre l1"
          using Cons.IH[of l1] st(2) Cons.prems(3,4) by simp
        then show ?thesis using True b by simp
      qed
    qed
  qed
qed

section \<open>Validators without a consensus public key\<close>

lemma hasConsPubKey_cong: "ConsId a = ConsId b \<Longrightarrow> hasConsPubKey a = hasConsPubKey b"
  by simp

lemma delete_keys_set: "fst ` set (AList.delete k al) = fst ` set al - {k}"
  by (auto simp: AList.delete_eq image_iff)


lemma candidateBody_side:
  assumes "candidateBody l p = Inr (Some l1)" "storeWf (store l)"
    "\<forall>v. validators (store l) operator = Some v \<longrightarrow> \<not> hasConsPubKey v"
    "\<forall>u \<in> set (updates l). Operator u \<noteq> operator \<and> (\<exists>pk. PubKey u = ConsPubKey pk)"
  shows "storeWf (store l1)"
    "\<forall>v. validators (store l1) operator = Some v \<longrightarrow> \<not> hasConsPubKey v"
    "\<forall>u \<in> set (updates l1). Operator u \<noteq> operator \<and> (\<exists>pk. PubKey u = ConsPubKey pk)"
proof -
  from assms(1,2) obtain validator validator1 where c:
    "validators (store l) p = Some validator"
    "validators (store l1) = (validators (store l))(p \<mapsto> validator1)"
    "OperatorAddr validator1 = p" "ConsId validator1 = ConsId validator"
    "updates l1 = updates l \<or>
       (hasConsPubKey validator \<and> updates l1 = updates l @ [ABCIValidatorUpdate validator1])"
    "storeWf (store l1)"
    by (rule candidateBody_step)
  have h: "hasConsPubKey validator1 = hasConsPubKey validator"
    using c(4) by (rule hasConsPubKey_cong)
  show "storeWf (store l1)" by (rule c(6))
  show "\<forall>v. validators (store l1) operator = Some v \<longrightarrow> \<not> hasConsPubKey v"
    using assms(3) c(1,2) h by (auto simp del: hasConsPubKey.simps)
  have pk: "hasConsPubKey validator \<Longrightarrow> \<exists>pk. ConsId validator1 = ConsPubKey pk"
    using c(4) by (cases "ConsId validator") simp_all
  show "\<forall>u \<in> set (updates l1). Operator u \<noteq> operator \<and> (\<exists>pk. PubKey u = ConsPubKey pk)"
    using c(5)
  proof
    assume "updates l1 = updates l"
    then show ?thesis using assms(4) by simp
  next
    assume a: "hasConsPubKey validator \<and> updates l1 = updates l @ [ABCIValidatorUpdate validator1]"
    then have "p \<noteq> operator" using assms(3) c(1) by auto
    then show ?thesis
      using a assms(4) c(3) pk by (auto simp: ABCIValidatorUpdate_def simp del: hasConsPubKey.simps)
  qed
qed

lemma candidateLoop_side:
  assumes "candidateLoop m cands l = Inr l'" "storeWf (store l)"
    "\<forall>v. validators (store l) operator = Some v \<longrightarrow> \<not> hasConsPubKey v"
    "\<forall>u \<in> set (updates l). Operator u \<noteq> operator \<and> (\<exists>pk. PubKey u = ConsPubKey pk)"
  shows "storeWf (store l') \<and>
    (\<forall>v. validators (store l') operator = Some v \<longrightarrow> \<not> hasConsPubKey v) \<and>
    (\<forall>u \<in> set (updates l'). Operator u \<noteq> operator \<and> (\<exists>pk. PubKey u = ConsPubKey pk))"
  using assms
proof (induction cands arbitrary: l)
  case Nil
  then show ?case by simp
next
  case (Cons p cands)
  show ?case
  proof (cases "count l < m")
    case False
    then show ?thesis using Cons.prems by simp
  next
    case True
    show ?thesis
    proof (cases "candidateBody l p")
      case (Inl e)
      then show ?thesis using True Cons.prems by simp
    next
      case (Inr r)
      show ?thesis
      proof (cases r)
        case None
        then show ?thesis using True Inr Cons.prems by simp
      next
        case (Some l1)
        have b: "candidateBody l p = Inr (Some l1)" using Inr Some by simp
        have r: "candidateLoop m cands l1 = Inr l'" using Cons.prems(1) True b by simp
        show ?thesis
          using Cons.IH[OF r candidateBody_side[OF b Cons.prems(2,3,4)]] .
      qed
    qed
  qed
qed

lemma noLongerBondedBody_side:
  assumes "noLongerBondedBody l p = Inr l1" "storeWf (store l)"
    "\<forall>v. validators (store l) operator = Some v \<longrightarrow> \<not> hasConsPubKey v"
    "\<forall>u \<in> set (updates l). Operator u \<noteq> operator \<and> (\<exists>pk. PubKey u = ConsPubKey pk)"
  shows "storeWf (store l1)"
    "\<forall>v. validators (store l1) operator = Some v \<longrightarrow> \<not> hasConsPubKey v"
    "\<forall>u \<in> set (updates l1). Operator u \<noteq> operator \<and> (\<exists>pk. PubKey u = ConsPubKey pk)"
proof -
  from assms(1,2) obtain validator where c:
    "validators (store l) p = Some validator"
    "Tokens validator = 0 \<longrightarrow> validators (store l1) = (validators (store l))(p := None)"
    "Tokens validator \<noteq> 0 \<longrightarrow>
       (\<exists>v1. validators (store l1) = (validators (store l))(p \<mapsto> v1) \<and>
            OperatorAddr v1 = p \<and> ConsId v1 = ConsId validator \<and>
            Status v1 = Unbonding)"
    "updates l1 = (if hasConsPubKey validator
                   then updates l @ [ABCIValidatorUpdateZero validator] else updates l)"
    "storeWf (store l1)"
    by (rule noLongerBondedBody_step)
  have oa: "OperatorAddr validator = p" using assms(2) c(1) by (simp add: storeWf_def)
  show "storeWf (store l1)" by (rule c(5))
  show "\<forall>v. validators (store l1) operator = Some v \<longrightarrow> \<not> hasConsPubKey v"
  proof (cases "Tokens validator = 0")
    case True
    then show ?thesis using c(2) assms(3) by (auto simp del: hasConsPubKey.simps)
  next
    case False
    then obtain v1 where v1: "validators (store l1) = (validators (store l))(p \<mapsto> v1)"
      "ConsId v1 = ConsId validator" using c(3) by blast
    have "hasConsPubKey v1 = hasConsPubKey validator" using v1(2) by (rule hasConsPubKey_cong)
    then show ?thesis using v1(1) assms(3) c(1) by (auto simp del: hasConsPubKey.simps)
  qed
  have pk: "hasConsPubKey validator \<Longrightarrow> \<exists>pk. ConsId validator = ConsPubKey pk"
    by (cases "ConsId validator") simp_all
  show "\<forall>u \<in> set (updates l1). Operator u \<noteq> operator \<and> (\<exists>pk. PubKey u = ConsPubKey pk)"
  proof (cases "hasConsPubKey validator")
    case False
    then show ?thesis using c(4) assms(4) by (simp del: hasConsPubKey.simps)
  next
    case True
    then have "p \<noteq> operator" using assms(3) c(1) by auto
    then show ?thesis
      using True c(4) assms(4) oa pk
      by (auto simp: ABCIValidatorUpdateZero_def simp del: hasConsPubKey.simps)
  qed
qed

lemma noLongerBondedLoop_side:
  assumes "noLongerBondedLoop ops l = Inr l'" "storeWf (store l)"
    "\<forall>v. validators (store l) operator = Some v \<longrightarrow> \<not> hasConsPubKey v"
    "\<forall>u \<in> set (updates l). Operator u \<noteq> operator \<and> (\<exists>pk. PubKey u = ConsPubKey pk)"
  shows "\<forall>u \<in> set (updates l'). Operator u \<noteq> operator \<and> (\<exists>pk. PubKey u = ConsPubKey pk)"
  using assms
proof (induction ops arbitrary: l)
  case Nil
  then show ?case by simp
next
  case (Cons p ops)
  from Cons.prems(1) obtain l1 where b: "noLongerBondedBody l p = Inr l1"
    and r: "noLongerBondedLoop ops l1 = Inr l'"
    by (auto split: sum.splits)
  show ?case
    using Cons.IH[OF r noLongerBondedBody_side[OF b Cons.prems(2,3,4)]] .
qed

lemma Apply_split:
  assumes "ApplyAndReturnValidatorSetUpdates s = Inr ((vals, ups), s')"
  obtains l1 l2 where
    "candidateLoop (MaxValidators (params s)) (powerIndexIterator s) (initLocals s) = Inr l1"
    "noLongerBondedLoop (sortNoLongerBonded (lastm l1)) l1 = Inr l2"
    "ups = updates l2" "vals = newVals l2"
    "validators s' = validators (store l2)"
  using assms
  by (auto simp: ApplyAndReturnValidatorSetUpdates_def Let_def validators_prims
      split: sum.splits if_splits)

text \<open>
  C9. In a store whose records lie under their own operator addresses, a validator without
  a consensus public key contributes no record to the returned update list, neither in
  the candidate loop nor in the removal loop; every record of the list carries a consensus
  public key.
\<close>

theorem side_chain_validator_never_in_updates:
  assumes "storeWf s" "GetValidator s operator = Some validator" "\<not> hasConsPubKey validator"
    "ApplyAndReturnValidatorSetUpdates s = Inr ((vals, ups), s')"
  shows "\<forall>u \<in> set ups. Operator u \<noteq> operator \<and> (\<exists>pk. PubKey u = ConsPubKey pk)"
proof -
  from assms(4) obtain l1 l2 where
    c: "candidateLoop (MaxValidators (params s)) (powerIndexIterator s) (initLocals s) = Inr l1"
    and n: "noLongerBondedLoop (sortNoLongerBonded (lastm l1)) l1 = Inr l2"
    and u: "ups = updates l2"
    by (rule Apply_split)
  have i: "storeWf (store (initLocals s))"
    "\<forall>v. validators (store (initLocals s)) operator = Some v \<longrightarrow> \<not> hasConsPubKey v"
    "\<forall>u \<in> set (updates (initLocals s)). Operator u \<noteq> operator \<and> (\<exists>pk. PubKey u = ConsPubKey pk)"
    using assms(1,2,3) by (simp_all add: initLocals_def GetValidator_def del: hasConsPubKey.simps)
  from candidateLoop_side[OF c i] have j: "storeWf (store l1)"
    "\<forall>v. validators (store l1) operator = Some v \<longrightarrow> \<not> hasConsPubKey v"
    "\<forall>u \<in> set (updates l1). Operator u \<noteq> operator \<and> (\<exists>pk. PubKey u = ConsPubKey pk)"
    by blast+
  show ?thesis using noLongerBondedLoop_side[OF n j] u by simp
qed

section \<open>Validators that are no longer bonded\<close>


lemma candidateLoop_remaining:
  assumes "candidateLoop m cands l = Inr l'" "storeWf (store l)"
  shows "storeWf (store l') \<and> fst ` set (lastm l') \<subseteq> fst ` set (lastm l) \<and>
         (\<forall>operator \<in> fst ` set (lastm l').
            validators (store l') operator = validators (store l) operator)"
  using assms
proof (induction cands arbitrary: l)
  case Nil
  then show ?case by simp
next
  case (Cons p cands)
  show ?case
  proof (cases "count l < m")
    case False
    then show ?thesis using Cons.prems by simp
  next
    case True
    show ?thesis
    proof (cases "candidateBody l p")
      case (Inl e)
      then show ?thesis using True Cons.prems by simp
    next
      case (Inr r)
      show ?thesis
      proof (cases r)
        case None
        then show ?thesis using True Inr Cons.prems by simp
      next
        case (Some l1)
        have b: "candidateBody l p = Inr (Some l1)" using Inr Some by simp
        have r: "candidateLoop m cands l1 = Inr l'" using Cons.prems(1) True b by simp
        obtain validator validator1 :: Validator where c:
          "validators (store l1) = (validators (store l))(p \<mapsto> validator1)"
          "lastm l1 = AList.delete p (lastm l)" "storeWf (store l1)"
          by (rule candidateBody_step [OF b Cons.prems(2)]) blast
        have k: "fst ` set (lastm l1) = fst ` set (lastm l) - {p}"
          by (simp only: c(2) delete_keys_set)
        from Cons.IH[OF r c(3)] have ih: "storeWf (store l')"
          "fst ` set (lastm l') \<subseteq> fst ` set (lastm l1)"
          "\<forall>operator \<in> fst ` set (lastm l').
            validators (store l') operator = validators (store l1) operator"
          by blast+
        have "\<forall>operator \<in> fst ` set (lastm l').
            validators (store l') operator = validators (store l) operator"
        proof
          fix operator assume o: "operator \<in> fst ` set (lastm l')"
          then have "operator \<noteq> p" using ih(2) k by auto
          moreover have "validators (store l') operator = validators (store l1) operator"
            using ih(3) o by blast
          ultimately show "validators (store l') operator = validators (store l) operator"
            by (simp add: c(1))
        qed
        then show ?thesis using ih(1,2) k by auto
      qed
    qed
  qed
qed

lemma noLongerBondedLoop_other:
  assumes "noLongerBondedLoop ops l = Inr l'" "storeWf (store l)" "operator \<notin> set ops"
  shows "validators (store l') operator = validators (store l) operator"
  using assms
proof (induction ops arbitrary: l)
  case Nil
  then show ?case by simp
next
  case (Cons p ops)
  from Cons.prems(1) obtain l1 where b: "noLongerBondedBody l p = Inr l1"
    and r: "noLongerBondedLoop ops l1 = Inr l'"
    by (auto split: sum.splits)
  obtain validator :: Validator where c:
    "Tokens validator = 0 \<longrightarrow> validators (store l1) = (validators (store l))(p := None)"
    "Tokens validator \<noteq> 0 \<longrightarrow>
       (\<exists>v1. validators (store l1) = (validators (store l))(p \<mapsto> v1) \<and>
            OperatorAddr v1 = p \<and> ConsId v1 = ConsId validator \<and> Status v1 = Unbonding)"
    "storeWf (store l1)"
    by (rule noLongerBondedBody_step[OF b Cons.prems(2)]) blast
  have ne: "operator \<noteq> p" using Cons.prems(3) by simp
  have "validators (store l1) operator = validators (store l) operator"
    using c(1,2) ne by (cases "Tokens validator = 0") auto
  then show ?case using Cons.IH[OF r c(3)] Cons.prems(3) by simp
qed

lemma noLongerBondedLoop_member:
  assumes "noLongerBondedLoop ops l = Inr l'" "storeWf (store l)" "distinct ops"
    "operator \<in> set ops" "validators (store l) operator = Some validator"
  shows "(validators (store l') operator = None) = (Tokens validator = 0)"
  using assms
proof (induction ops arbitrary: l)
  case Nil
  then show ?case by simp
next
  case (Cons p ops)
  from Cons.prems(1) obtain l1 where b: "noLongerBondedBody l p = Inr l1"
    and r: "noLongerBondedLoop ops l1 = Inr l'"
    by (auto split: sum.splits)
  obtain validator0 :: Validator where c:
    "validators (store l) p = Some validator0"
    "Tokens validator0 = 0 \<longrightarrow> validators (store l1) = (validators (store l))(p := None)"
    "Tokens validator0 \<noteq> 0 \<longrightarrow>
       (\<exists>v1. validators (store l1) = (validators (store l))(p \<mapsto> v1) \<and>
            OperatorAddr v1 = p \<and> ConsId v1 = ConsId validator0 \<and> Status v1 = Unbonding)"
    "storeWf (store l1)"
    by (rule noLongerBondedBody_step[OF b Cons.prems(2)]) blast
  show ?case
  proof (cases "operator = p")
    case True
    then have v: "validator0 = validator" using c(1) Cons.prems(5) by simp
    have "operator \<notin> set ops" using True Cons.prems(3) by simp
    then have "validators (store l') operator = validators (store l1) operator"
      using noLongerBondedLoop_other[OF r c(4)] by simp
    then show ?thesis using c(2,3) v True by (cases "Tokens validator = 0") auto
  next
    case False
    then have m: "operator \<in> set ops" using Cons.prems(4) by simp
    have "validators (store l1) operator = Some validator"
      using c(2,3) False Cons.prems(5) by (cases "Tokens validator0 = 0") auto
    then show ?thesis using Cons.IH[OF r c(4) _ m] Cons.prems(3) by simp
  qed
qed

lemma fold_update_distinct:
  "distinct (map fst m0) \<Longrightarrow>
   distinct (map fst (fold (\<lambda>(operator, powerBytes) m. AList.update operator powerBytes m) xs m0))"
proof (induction xs arbitrary: m0)
  case Nil
  then show ?case by simp
next
  case (Cons x xs)
  obtain k v where x: "x = (k, v)" by (cases x)
  show ?case using Cons.IH[of "AList.update k v m0"] Cons.prems x
    by (simp add: AList.distinct_update)
qed

lemma getLastValidatorsByAddr_distinct: "distinct (map fst (getLastValidatorsByAddr s))"
  unfolding getLastValidatorsByAddr_def by (rule fold_update_distinct) simp

lemma candidateLoop_lastm_distinct:
  assumes "candidateLoop m cands l = Inr l'" "distinct (map fst (lastm l))"
  shows "distinct (map fst (lastm l'))"
  using assms
proof (induction cands arbitrary: l)
  case Nil
  then show ?case by simp
next
  case (Cons p cands)
  show ?case
  proof (cases "count l < m")
    case False
    then show ?thesis using Cons.prems by simp
  next
    case True
    show ?thesis
    proof (cases "candidateBody l p")
      case (Inl e)
      then show ?thesis using True Cons.prems by simp
    next
      case (Inr r)
      show ?thesis
      proof (cases r)
        case None
        then show ?thesis using True Inr Cons.prems by simp
      next
        case (Some l1)
        have b: "candidateBody l p = Inr (Some l1)" using Inr Some by simp
        have r: "candidateLoop m cands l1 = Inr l'" using Cons.prems(1) True b by simp
        obtain validator validator1 :: Validator
          where "lastm l1 = AList.delete p (lastm l)"
          by (rule candidateBody_Some [OF b]) blast
        then have "distinct (map fst (lastm l1))"
          using Cons.prems(2) by (simp add: AList.distinct_delete)
        then show ?thesis using Cons.IH[OF r] by simp
      qed
    qed
  qed
qed

text \<open>
  C2, as the code has it. For an operator left in the no-longer-bonded set, the validator
  record is gone from the store after \<^verbatim>\<open>ApplyAndReturnValidatorSetUpdates\<close> exactly when
  the validator's token balance is zero (the guard of line 112 is \<^verbatim>\<open>Tokens.IsZero\<close>).
\<close>

theorem no_longer_bonded_removed_iff_no_tokens:
  assumes "storeWf s"
    and "candidateLoop (MaxValidators (params s)) (powerIndexIterator s) (initLocals s) = Inr l1"
    and "operator \<in> set (sortNoLongerBonded (lastm l1))"
    and "GetValidator s operator = Some validator"
    and "ApplyAndReturnValidatorSetUpdates s = Inr (r, s')"
  shows "(GetValidator s' operator = None) = (Tokens validator = 0)"
proof -
  obtain vals ups where r: "r = (vals, ups)" by (cases r)
  from assms(5) r obtain l1' l2 where
    c: "candidateLoop (MaxValidators (params s)) (powerIndexIterator s) (initLocals s) = Inr l1'"
    and n: "noLongerBondedLoop (sortNoLongerBonded (lastm l1')) l1' = Inr l2"
    and v: "validators s' = validators (store l2)"
    using Apply_split[of s vals ups s'] by blast
  have e: "l1' = l1" using c assms(2) by simp
  have i: "storeWf (store (initLocals s))" using assms(1) by (simp add: initLocals_def)
  note rem = candidateLoop_remaining[OF assms(2) i]
  have k: "operator \<in> fst ` set (lastm l1)"
    using assms(3) by (simp add: sortNoLongerBonded_def)
  have "validators (store l1) operator = validators (store (initLocals s)) operator"
    using rem k by blast
  then have v1: "validators (store l1) operator = Some validator"
    using assms(4) by (simp add: initLocals_def GetValidator_def)
  have d: "distinct (sortNoLongerBonded (lastm l1))"
    using candidateLoop_lastm_distinct[OF assms(2)] getLastValidatorsByAddr_distinct[of s]
    by (simp add: sortNoLongerBonded_def initLocals_def)
  have wf1: "storeWf (store l1)" using rem by blast
  show ?thesis
    using noLongerBondedLoop_member[OF n[unfolded e] wf1 d assms(3) v1] v
    by (simp add: GetValidator_def)
qed

section \<open>The update list\<close>

lemma powerIndexIterator_distinct:
  assumes "distinct (map snd (validatorsByPower s))"
  shows "distinct (powerIndexIterator s)"
proof -
  have "distinct (validatorsByPower s)" "inj_on snd (set (validatorsByPower s))"
    using assms by (simp_all add: distinct_map)
  then show ?thesis
    by (simp add: powerIndexIterator_def distinct_map rev_map[symmetric])
qed

lemma candidateLoop_updates:
  assumes "candidateLoop m cands l = Inr l'" "distinct cands" "storeWf (store l)"
    "distinct (map Operator (updates l))"
    "Operator ` set (updates l) \<inter> set cands = {}"
    "Operator ` set (updates l) \<inter> fst ` set (lastm l) = {}"
    "length (updates l) \<le> count l" "count l \<le> m"
  shows "storeWf (store l') \<and> distinct (map Operator (updates l')) \<and>
         Operator ` set (updates l') \<inter> fst ` set (lastm l') = {} \<and>
         length (updates l') \<le> m"
  using assms
proof (induction cands arbitrary: l)
  case Nil
  then show ?case by simp
next
  case (Cons p cands)
  show ?case
  proof (cases "count l < m")
    case False
    then show ?thesis using Cons.prems by simp
  next
    case True
    show ?thesis
    proof (cases "candidateBody l p")
      case (Inl e)
      then show ?thesis using True Cons.prems by simp
    next
      case (Inr r)
      show ?thesis
      proof (cases r)
        case None
        then show ?thesis using True Inr Cons.prems by simp
      next
        case (Some l1)
        have b: "candidateBody l p = Inr (Some l1)" using Inr Some by simp
        have r: "candidateLoop m cands l1 = Inr l'" using Cons.prems(1) True b by simp
        obtain validator validator1 :: Validator where c:
          "OperatorAddr validator1 = p"
          "lastm l1 = AList.delete p (lastm l)" "count l1 = Suc (count l)"
          "updates l1 = updates l \<or>
             (hasConsPubKey validator \<and> updates l1 = updates l @ [ABCIValidatorUpdate validator1])"
          "storeWf (store l1)"
          by (rule candidateBody_step[OF b Cons.prems(3)]) blast
        have k: "fst ` set (lastm l1) = fst ` set (lastm l) - {p}"
          by (simp only: c(2) delete_keys_set)
        have pn: "p \<notin> Operator ` set (updates l)" "p \<notin> set cands"
          using Cons.prems(2,5) by auto
        have ops: "Operator ` set (updates l1) \<subseteq> insert p (Operator ` set (updates l))"
          using c(4,1) by (auto simp: ABCIValidatorUpdate_def)
        have d: "distinct (map Operator (updates l1))"
          using c(4,1) pn(1) Cons.prems(4) by (auto simp: ABCIValidatorUpdate_def)
        have i1: "Operator ` set (updates l1) \<inter> set cands = {}"
          using ops pn(2) Cons.prems(5) by auto
        have i2: "Operator ` set (updates l1) \<inter> fst ` set (lastm l1) = {}"
          using ops k Cons.prems(6) by auto
        have len: "length (updates l1) \<le> count l1"
          using c(3,4) Cons.prems(7) by auto
        have cnt: "count l1 \<le> m" using c(3) True by simp
        have dc: "distinct cands" using Cons.prems(2) by simp
        show ?thesis
          by (rule Cons.IH[OF r dc c(5) d i1 i2 len cnt])
      qed
    qed
  qed
qed

lemma noLongerBondedLoop_updates:
  assumes "noLongerBondedLoop ops l = Inr l'" "distinct ops" "storeWf (store l)"
    "distinct (map Operator (updates l))"
    "Operator ` set (updates l) \<inter> set ops = {}"
  shows "distinct (map Operator (updates l')) \<and>
         filter (\<lambda>u. Power u \<noteq> 0) (updates l') = filter (\<lambda>u. Power u \<noteq> 0) (updates l)"
  using assms
proof (induction ops arbitrary: l)
  case Nil
  then show ?case by simp
next
  case (Cons p ops)
  from Cons.prems(1) obtain l1 where b: "noLongerBondedBody l p = Inr l1"
    and r: "noLongerBondedLoop ops l1 = Inr l'"
    by (auto split: sum.splits)
  obtain validator :: Validator where c:
    "validators (store l) p = Some validator"
    "updates l1 = (if hasConsPubKey validator
                   then updates l @ [ABCIValidatorUpdateZero validator] else updates l)"
    "storeWf (store l1)"
    by (rule noLongerBondedBody_step[OF b Cons.prems(3)]) blast
  have oa: "OperatorAddr validator = p" using Cons.prems(3) c(1) by (simp add: storeWf_def)
  have pn: "p \<notin> Operator ` set (updates l)" "p \<notin> set ops"
    using Cons.prems(2,5) by auto
  have ops: "Operator ` set (updates l1) \<subseteq> insert p (Operator ` set (updates l))"
    using c(2) oa by (auto simp: ABCIValidatorUpdateZero_def simp del: hasConsPubKey.simps)
  have d: "distinct (map Operator (updates l1))"
    using c(2) oa pn(1) Cons.prems(4)
    by (auto simp: ABCIValidatorUpdateZero_def simp del: hasConsPubKey.simps)
  have i1: "Operator ` set (updates l1) \<inter> set ops = {}"
    using ops pn(2) Cons.prems(5) by auto
  have f: "filter (\<lambda>u. Power u \<noteq> 0) (updates l1) = filter (\<lambda>u. Power u \<noteq> 0) (updates l)"
    using c(2) by (simp add: ABCIValidatorUpdateZero_def del: hasConsPubKey.simps)
  have dc: "distinct ops" using Cons.prems(2) by simp
  show ?case
    using Cons.IH[OF r dc c(3) d i1] f by simp
qed

text \<open>
  C1, as amended. For every state whose records lie under their own operator addresses and
  whose power index has at most one entry per operator, and for every \<open>MaxValidators\<close>
  parameter, the update list returned by \<^verbatim>\<open>ApplyAndReturnValidatorSetUpdates\<close> has no
  two records for the same operator, and its records of non-zero power number at most
  \<open>MaxValidators\<close>.
\<close>

theorem updates_distinct_and_bounded:
  assumes "storeWf s" "distinct (map snd (validatorsByPower s))"
    "ApplyAndReturnValidatorSetUpdates s = Inr ((vals, ups), s')"
  shows "distinct (map Operator ups) \<and>
         length (filter (\<lambda>u. Power u \<noteq> 0) ups) \<le> MaxValidators (params s)"
proof -
  from assms(3) obtain l1 l2 where
    c: "candidateLoop (MaxValidators (params s)) (powerIndexIterator s) (initLocals s) = Inr l1"
    and n: "noLongerBondedLoop (sortNoLongerBonded (lastm l1)) l1 = Inr l2"
    and u: "ups = updates l2"
    by (rule Apply_split)
  have dc: "distinct (powerIndexIterator s)"
    using assms(2) by (rule powerIndexIterator_distinct)
  have i: "storeWf (store (initLocals s))"
    "distinct (map Operator (updates (initLocals s)))"
    "Operator ` set (updates (initLocals s)) \<inter> set (powerIndexIterator s) = {}"
    "Operator ` set (updates (initLocals s)) \<inter> fst ` set (lastm (initLocals s)) = {}"
    "length (updates (initLocals s)) \<le> count (initLocals s)"
    "count (initLocals s) \<le> MaxValidators (params s)"
    using assms(1) by (simp_all add: initLocals_def)
  from candidateLoop_updates[OF c dc i] have j: "storeWf (store l1)"
    "distinct (map Operator (updates l1))"
    "Operator ` set (updates l1) \<inter> fst ` set (lastm l1) = {}"
    "length (updates l1) \<le> MaxValidators (params s)"
    by blast+
  have dl: "distinct (map fst (lastm l1))"
    using candidateLoop_lastm_distinct[OF c] getLastValidatorsByAddr_distinct[of s]
    by (simp add: initLocals_def)
  have dn: "distinct (sortNoLongerBonded (lastm l1))"
    using dl by (simp add: sortNoLongerBonded_def)
  have dj: "Operator ` set (updates l1) \<inter> set (sortNoLongerBonded (lastm l1)) = {}"
    using j(3) by (simp add: sortNoLongerBonded_def)
  from noLongerBondedLoop_updates[OF n dn j(1,2) dj]
  have k: "distinct (map Operator (updates l2))"
    "filter (\<lambda>u. Power u \<noteq> 0) (updates l2) = filter (\<lambda>u. Power u \<noteq> 0) (updates l1)"
    by blast+
  have "length (filter (\<lambda>u. Power u \<noteq> 0) (updates l1)) \<le> MaxValidators (params s)"
    by (rule le_trans[OF length_filter_le j(4)])
  then show ?thesis using k u by simp
qed

section \<open>The keeper keeps one index entry per operator\<close>

text \<open>
  The two conditions under which C1 is proved are the discipline of the keeper. A store
  with an empty power index is well-formed; creating a validator under a new operator
  address, the token mutations, jailing and unjailing, the state transitions,
  \<^verbatim>\<open>RemoveValidator\<close>, \<^verbatim>\<open>ApplyAndReturnValidatorSetUpdates\<close> and
  \<^verbatim>\<open>UnbondAllMatureValidatorQueue\<close> keep it well-formed when they are handed the record
  that is in the store; and a well-formed power index names no operator twice.
\<close>

lemma powerIndexWf_one_entry:
  assumes "powerIndexWf s"
  shows "distinct (map snd (validatorsByPower s))"
proof -
  define g where "g operator = GetValidatorsByPowerIndexKey (the (validators s operator))"
    for operator
  have "\<forall>e \<in> set (validatorsByPower s). fst e = g (snd e)"
    using assms by (auto simp: powerIndexWf_def g_def)
  then have "map fst (validatorsByPower s) = map g (map snd (validatorsByPower s))"
    by simp
  moreover have "distinct (map fst (validatorsByPower s))"
    using assms by (simp add: powerIndexWf_def)
  ultimately have "distinct (map g (map snd (validatorsByPower s)))"
    by (simp only:)
  then show ?thesis
    unfolding distinct_map [of g] by (rule conjunct1)
qed

lemma powerIndexWf_lookup:
  assumes "powerIndexWf s" "map_of (validatorsByPower s) k = Some operator"
  shows "\<exists>v. validators s operator = Some v \<and> GetValidatorsByPowerIndexKey v = k"
  using assms by (auto simp: powerIndexWf_def dest!: map_of_SomeD)

lemma powerIndexWf_step:
  assumes "storeWf s" "powerIndexWf s"
    and "validators s' = (validators s)(operator := r)"
    and "\<And>v'. r = Some v' \<Longrightarrow> OperatorAddr v' = operator"
    and "distinct (map fst (validatorsByPower s'))"
    and "\<And>k operator'. map_of (validatorsByPower s') k = Some operator' \<Longrightarrow>
           (operator' = operator \<and> map_option GetValidatorsByPowerIndexKey r = Some k) \<or>
           (operator' \<noteq> operator \<and> map_of (validatorsByPower s) k = Some operator')"
  shows "storeWf s' \<and> powerIndexWf s'"
proof
  show "storeWf s'"
    using assms(1,3,4) by (auto simp: storeWf_def)
  show "powerIndexWf s'"
    unfolding powerIndexWf_def
  proof (intro conjI ballI)
    show "distinct (map fst (validatorsByPower s'))" by (rule assms(5))
    fix e assume e: "e \<in> set (validatorsByPower s')"
    obtain k operator' where ke: "e = (k, operator')" by (cases e)
    have m: "map_of (validatorsByPower s') k = Some operator'"
      using e ke assms(5) by simp
    from assms(6)[OF m] show "case e of (k, operator) \<Rightarrow>
        map_option GetValidatorsByPowerIndexKey (validators s' operator) = Some k"
    proof
      assume "operator' = operator \<and> map_option GetValidatorsByPowerIndexKey r = Some k"
      then show ?thesis using ke assms(3) by simp
    next
      assume a: "operator' \<noteq> operator \<and> map_of (validatorsByPower s) k = Some operator'"
      then obtain v where "validators s operator' = Some v" "GetValidatorsByPowerIndexKey v = k"
        using powerIndexWf_lookup[OF assms(2)] by blast
      then show ?thesis using ke a assms(3) by simp
    qed
  qed
qed


lemma index_prims:
  "validatorsByPower (publish s e) = validatorsByPower s"
  "validatorsByPower (SetValidator s v) = validatorsByPower s"
  "validatorsByPower (SetValidatorByPowerIndex s v) =
     (if Jailed v then validatorsByPower s
      else AList.update (GetValidatorsByPowerIndexKey v) (OperatorAddr v) (validatorsByPower s))"
  "validatorsByPower (DeleteValidatorByPowerIndex s v) =
     AList.delete (GetValidatorsByPowerIndexKey v) (validatorsByPower s)"
  "validatorsByPower (SetPool s p) = validatorsByPower s"
  "validatorsByPower (SetIntraTxCounter s c) = validatorsByPower s"
  "validatorsByPower (callHook s h) = validatorsByPower s"
  "validatorsByPower (InsertValidatorQueue s v) = validatorsByPower s"
  "validatorsByPower (SetLastValidatorPower s operator pw) = validatorsByPower s"
  "validatorsByPower (DeleteLastValidatorPower s operator) = validatorsByPower s"
  "validatorsByPower (SetLastTotalPower s pw) = validatorsByPower s"
  by (simp_all add: publish_def SetValidator_def SetValidatorByPowerIndex_def
      DeleteValidatorByPowerIndex_def SetPool_def SetIntraTxCounter_def callHook_def
      InsertValidatorQueue_def SetValidatorQueueTimeSlice_def SetLastValidatorPower_def
      DeleteLastValidatorPower_def SetLastTotalPower_def Let_def)

lemma validators_SetIntraTxCounter: "validators (SetIntraTxCounter s c) = validators s"
  by (simp add: SetIntraTxCounter_def)

lemma wf_frame:
  assumes "validators s' = validators s" "validatorsByPower s' = validatorsByPower s"
  shows "storeWf s' = storeWf s" "powerIndexWf s' = powerIndexWf s"
  using assms by (simp_all add: storeWf_def powerIndexWf_def)

lemma powerIndexWf_key:
  assumes "powerIndexWf s" "validators s operator = Some v"
    "map_of (validatorsByPower s) k = Some operator"
  shows "k = GetValidatorsByPowerIndexKey v"
  using powerIndexWf_lookup[OF assms(1,3)] assms(2) by auto

lemma powerIndexWf_distinct_keys: "powerIndexWf s \<Longrightarrow> distinct (map fst (validatorsByPower s))"
  by (simp add: powerIndexWf_def)

text \<open>Delete the entry at the old key, store the new record, insert its entry unless jailed.\<close>

lemma reindex_wf:
  assumes "storeWf s" "powerIndexWf s" "validators s (OperatorAddr v) = Some v"
    and "OperatorAddr v' = OperatorAddr v"
    and "validators s' = (validators s)(OperatorAddr v \<mapsto> v')"
    and "validatorsByPower s' =
           (if Jailed v' then AList.delete (GetValidatorsByPowerIndexKey v) (validatorsByPower s)
            else AList.update (GetValidatorsByPowerIndexKey v') (OperatorAddr v')
                   (AList.delete (GetValidatorsByPowerIndexKey v) (validatorsByPower s)))"
  shows "storeWf s' \<and> powerIndexWf s'"
proof (rule powerIndexWf_step[OF assms(1,2), where r = "Some v'" and operator = "OperatorAddr v"])
  show "validators s' = (validators s)(OperatorAddr v := Some v')" by (rule assms(5))
  show "\<And>w. Some v' = Some w \<Longrightarrow> OperatorAddr w = OperatorAddr v" using assms(4) by simp
  show "distinct (map fst (validatorsByPower s'))"
    using powerIndexWf_distinct_keys[OF assms(2)]
    by (simp add: assms(6) distinct_update distinct_delete)
  fix k operator'
  assume m: "map_of (validatorsByPower s') k = Some operator'"
  have old: "map_of (validatorsByPower s) k = Some (OperatorAddr v) \<Longrightarrow>
      k = GetValidatorsByPowerIndexKey v"
    by (rule powerIndexWf_key[OF assms(2,3)])
  show "(operator' = OperatorAddr v \<and>
          map_option GetValidatorsByPowerIndexKey (Some v') = Some k) \<or>
        (operator' \<noteq> OperatorAddr v \<and> map_of (validatorsByPower s) k = Some operator')"
    using m old assms(4)
    by (auto simp: assms(6) update_conv' delete_conv' split: if_splits)
qed

text \<open>Store a record with the key of the old one, and write its entry or leave the index.\<close>

lemma restore_wf:
  assumes "storeWf s" "powerIndexWf s" "validators s (OperatorAddr v) = Some v"
    and "OperatorAddr v' = OperatorAddr v"
    and "GetValidatorsByPowerIndexKey v' = GetValidatorsByPowerIndexKey v"
    and "validators s' = (validators s)(OperatorAddr v \<mapsto> v')"
    and "validatorsByPower s' = validatorsByPower s \<or>
         validatorsByPower s' =
           AList.update (GetValidatorsByPowerIndexKey v') (OperatorAddr v') (validatorsByPower s)"
  shows "storeWf s' \<and> powerIndexWf s'"
proof (rule powerIndexWf_step[OF assms(1,2), where r = "Some v'" and operator = "OperatorAddr v"])
  show "validators s' = (validators s)(OperatorAddr v := Some v')" by (rule assms(6))
  show "\<And>w. Some v' = Some w \<Longrightarrow> OperatorAddr w = OperatorAddr v" using assms(4) by simp
  show "distinct (map fst (validatorsByPower s'))"
    using powerIndexWf_distinct_keys[OF assms(2)] assms(7)
    by (auto simp: distinct_update)
  fix k operator'
  assume m: "map_of (validatorsByPower s') k = Some operator'"
  have old: "map_of (validatorsByPower s) k = Some (OperatorAddr v) \<Longrightarrow>
      k = GetValidatorsByPowerIndexKey v"
    by (rule powerIndexWf_key[OF assms(2,3)])
  show "(operator' = OperatorAddr v \<and>
          map_option GetValidatorsByPowerIndexKey (Some v') = Some k) \<or>
        (operator' \<noteq> OperatorAddr v \<and> map_of (validatorsByPower s) k = Some operator')"
    using m old assms(4,5,7)
    by (auto simp: update_conv' split: if_splits)
qed

lemma RemoveValidator_wf:
  assumes "storeWf s" "powerIndexWf s"
  shows "storeWf (RemoveValidator s address) \<and> powerIndexWf (RemoveValidator s address)"
proof (cases "validators s address")
  case None
  then show ?thesis using assms by (simp add: RemoveValidator_def GetValidator_def)
next
  case (Some v)
  have ix: "validatorsByPower (RemoveValidator s address) =
      AList.delete (GetValidatorsByPowerIndexKey v) (validatorsByPower s)"
    using Some by (simp add: RemoveValidator_def GetValidator_def Let_def publish_def)
  show ?thesis
  proof (rule powerIndexWf_step[OF assms, where r = None and operator = address])
    show "validators (RemoveValidator s address) = (validators s)(address := None)"
      by (rule validators_RemoveValidator)
    show "\<And>w. None = Some w \<Longrightarrow> OperatorAddr w = address" by simp
    show "distinct (map fst (validatorsByPower (RemoveValidator s address)))"
      using powerIndexWf_distinct_keys[OF assms(2)] by (simp add: ix distinct_delete)
    fix k operator'
    assume m: "map_of (validatorsByPower (RemoveValidator s address)) k = Some operator'"
    have old: "map_of (validatorsByPower s) k = Some address \<Longrightarrow>
        k = GetValidatorsByPowerIndexKey v"
      by (rule powerIndexWf_key[OF assms(2) Some])
    show "(operator' = address \<and> map_option GetValidatorsByPowerIndexKey None = Some k) \<or>
          (operator' \<noteq> address \<and> map_of (validatorsByPower s) k = Some operator')"
      using m old by (auto simp: ix delete_conv' split: if_splits)
  qed
qed


lemma key_fields:
  "GetValidatorsByPowerIndexKey (v\<lparr>Jailed := b\<rparr>) = GetValidatorsByPowerIndexKey v"
  "GetValidatorsByPowerIndexKey (v\<lparr>Status := st\<rparr>) = GetValidatorsByPowerIndexKey v"
  by (simp_all add: GetValidatorsByPowerIndexKey_def)

lemma bondValidator_wf:
  assumes "storeWf s" "powerIndexWf s" "validators s (OperatorAddr v) = Some v"
  shows "storeWf (snd (bondValidator s v)) \<and> powerIndexWf (snd (bondValidator s v))"
  by (rule reindex_wf[OF assms, where v' = "v\<lparr>BondHeight := blockHeight s, Status := Bonded\<rparr>"])
     (simp_all add: bondValidator_def Let_def validators_prims index_prims UpdateStatus_def
        DeleteValidatorByPowerIndex_def split: prod.splits)

lemma beginUnbondingValidator_wf:
  assumes "storeWf s" "powerIndexWf s" "validators s (OperatorAddr v) = Some v"
    and "beginUnbondingValidator s v = Inr (v1, s1)"
  shows "storeWf s1 \<and> powerIndexWf s1"
proof (rule reindex_wf[OF assms(1,2,3), where v' = v1])
  show "OperatorAddr v1 = OperatorAddr v"
    by (rule beginUnbondingValidator_effect(3)[OF assms(4)])
  show "validators s1 = (validators s)(OperatorAddr v \<mapsto> v1)"
    by (rule beginUnbondingValidator_effect(2)[OF assms(4)])
  show "validatorsByPower s1 =
      (if Jailed v1 then AList.delete (GetValidatorsByPowerIndexKey v) (validatorsByPower s)
       else AList.update (GetValidatorsByPowerIndexKey v1) (OperatorAddr v1)
              (AList.delete (GetValidatorsByPowerIndexKey v) (validatorsByPower s)))"
    using assms(4)
    by (auto simp: beginUnbondingValidator_def Let_def index_prims UpdateStatus_def
        SetPool_def DeleteValidatorByPowerIndex_def split: prod.splits if_splits)
qed

lemma completeUnbondingValidator_wf:
  assumes "storeWf s" "powerIndexWf s" "validators s (OperatorAddr v) = Some v"
  shows "storeWf (snd (completeUnbondingValidator s v)) \<and>
         powerIndexWf (snd (completeUnbondingValidator s v))"
  by (rule restore_wf[OF assms, where v' = "v\<lparr>Status := Unbonded\<rparr>"])
     (simp_all add: completeUnbondingValidator_def Let_def validators_prims index_prims
        UpdateStatus_def key_fields split: prod.splits)

lemma jailValidator_wf:
  assumes "storeWf s" "powerIndexWf s" "validators s (OperatorAddr v) = Some v"
    and "jailValidator s v = Inr s'"
  shows "storeWf s' \<and> powerIndexWf s'"
  using assms(4)
  by (intro reindex_wf[OF assms(1,2,3), where v' = "v\<lparr>Jailed := True\<rparr>"])
     (auto simp: jailValidator_def Let_def validators_prims index_prims key_fields
        split: if_splits)

lemma unjailValidator_wf:
  assumes "storeWf s" "powerIndexWf s" "validators s (OperatorAddr v) = Some v"
    and "unjailValidator s v = Inr s'"
  shows "storeWf s' \<and> powerIndexWf s'"
  using assms(4)
  by (intro restore_wf[OF assms(1,2,3), where v' = "v\<lparr>Jailed := False\<rparr>"])
     (auto simp: unjailValidator_def Let_def validators_prims index_prims key_fields
        split: if_splits)

lemma AddValidatorTokensAndShares_wf:
  assumes "storeWf s" "powerIndexWf s" "validators s (OperatorAddr v) = Some v"
    and "OperatorAddr (fst (f v (GetPool s) n)) = OperatorAddr v"
  shows "storeWf (snd (AddValidatorTokensAndShares f s v n)) \<and>
         powerIndexWf (snd (AddValidatorTokensAndShares f s v n))"
  using assms(4)
  by (intro reindex_wf[OF assms(1,2,3),
        where v' = "(fst (f v (GetPool s) n))\<lparr>BondIntraTxCounter := GetIntraTxCounter s\<rparr>"])
     (auto simp: AddValidatorTokensAndShares_def Let_def validators_prims index_prims
        validators_SetIntraTxCounter GetIntraTxCounter_def GetPool_def
        DeleteValidatorByPowerIndex_def split: prod.splits)

lemma RemoveValidatorTokensAndShares_wf:
  assumes "storeWf s" "powerIndexWf s" "validators s (OperatorAddr v) = Some v"
    and "OperatorAddr (fst (g v (GetPool s) d)) = OperatorAddr v"
  shows "storeWf (snd (RemoveValidatorTokensAndShares g s v d)) \<and>
         powerIndexWf (snd (RemoveValidatorTokensAndShares g s v d))"
  using assms(4)
  by (intro reindex_wf[OF assms(1,2,3), where v' = "fst (g v (GetPool s) d)"])
     (auto simp: RemoveValidatorTokensAndShares_def Let_def validators_prims index_prims
        GetPool_def split: prod.splits)


lemma candidateBody_store:
  assumes "candidateBody l operator = Inr (Some l1)"
  shows "\<exists>validator s1. validators (store l) operator = Some validator \<and>
           (s1 = store l \<or> s1 = snd (bondValidator (store l) validator)) \<and>
           validators (store l1) = validators s1 \<and>
           validatorsByPower (store l1) = validatorsByPower s1"
proof -
  from assms obtain validator where v: "validators (store l) operator = Some validator"
    by (auto simp: candidateBody_def mustGetValidator_def GetValidator_def split: option.splits)
  define s1 where "s1 = (if Status validator = Bonded then store l
                         else snd (bondValidator (store l) validator))"
  define validator1 where "validator1 = (if Status validator = Bonded then validator
                         else fst (bondValidator (store l) validator))"
  have tr: "(case Status validator of
               Unbonded \<Rightarrow> unbondedToBonded (store l) validator
             | Unbonding \<Rightarrow> unbondingToBonded (store l) validator
             | Bonded \<Rightarrow> Inr (validator, store l)) = Inr (validator1, s1)"
    by (cases "Status validator")
       (simp_all add: validator1_def s1_def unbondedToBonded_def unbondingToBonded_def)
  have "store l1 = s1 \<or>
        store l1 = SetLastValidatorPower s1 operator (BondedTokens_val validator1)"
    using assms v unfolding candidateBody_def mustGetValidator_def GetValidator_def
    by (auto simp add: tr Let_def simp del: hasConsPubKey.simps split: if_splits)
  then have "validators (store l1) = validators s1 \<and>
             validatorsByPower (store l1) = validatorsByPower s1"
    by (auto simp: validators_prims index_prims)
  then show ?thesis using v s1_def by auto
qed

lemma candidateBody_wf:
  assumes "candidateBody l operator = Inr (Some l1)" "storeWf (store l)"
    "powerIndexWf (store l)"
  shows "storeWf (store l1) \<and> powerIndexWf (store l1)"
proof -
  from candidateBody_store[OF assms(1)] obtain validator s1 where
    c: "validators (store l) operator = Some validator"
       "s1 = store l \<or> s1 = snd (bondValidator (store l) validator)"
       "validators (store l1) = validators s1"
       "validatorsByPower (store l1) = validatorsByPower s1"
    by blast
  have oa: "validators (store l) (OperatorAddr validator) = Some validator"
    using assms(2) c(1) by (simp add: storeWf_def)
  have "storeWf s1 \<and> powerIndexWf s1"
    using c(2) assms(2,3) bondValidator_wf[OF assms(2,3) oa] by auto
  then show ?thesis
    by (simp add: wf_frame[OF c(3,4)])
qed

lemma candidateLoop_wf:
  assumes "candidateLoop m cands l = Inr l'" "storeWf (store l)" "powerIndexWf (store l)"
  shows "storeWf (store l') \<and> powerIndexWf (store l')"
  using assms
proof (induction cands arbitrary: l)
  case Nil
  then show ?case by simp
next
  case (Cons operator rest)
  show ?case
  proof (cases "count l < m")
    case False
    then show ?thesis using Cons.prems by simp
  next
    case True
    show ?thesis
    proof (cases "candidateBody l operator")
      case (Inl e)
      then show ?thesis using Cons.prems(1) True by simp
    next
      case (Inr r)
      show ?thesis
      proof (cases r)
        case None
        then show ?thesis using Cons.prems Inr True by simp
      next
        case (Some l1)
        have b: "candidateBody l operator = Inr (Some l1)" using Inr Some by simp
        have w: "storeWf (store l1) \<and> powerIndexWf (store l1)"
          by (rule candidateBody_wf[OF b Cons.prems(2,3)])
        have r: "candidateLoop m rest l1 = Inr l'"
          using Cons.prems(1) True b by simp
        show ?thesis
          using Cons.IH[OF r] w by simp
      qed
    qed
  qed
qed

lemma noLongerBondedBody_wf:
  assumes "noLongerBondedBody l operator = Inr l1" "storeWf (store l)"
    "powerIndexWf (store l)"
  shows "storeWf (store l1) \<and> powerIndexWf (store l1)"
proof -
  from assms(1) obtain validator where v: "validators (store l) operator = Some validator"
    by (auto simp: noLongerBondedBody_def mustGetValidator_def GetValidator_def
        split: option.splits)
  have oa: "validators (store l) (OperatorAddr validator) = Some validator"
    using assms(2) v by (simp add: storeWf_def)
  from assms(1) v obtain v1 s1 where
    b: "beginUnbondingValidator (store l) validator = Inr (v1, s1)"
    by (auto simp: noLongerBondedBody_def mustGetValidator_def GetValidator_def
        bondedToUnbonding_def split: if_splits sum.splits)
  have l1: "store l1 = DeleteLastValidatorPower
                     (if Tokens validator = 0 then RemoveValidator s1 (OperatorAddr validator)
                      else s1) operator"
    using assms(1) v b beginUnbondingValidator_effect(1)[OF b]
    by (auto simp: noLongerBondedBody_def mustGetValidator_def GetValidator_def
        bondedToUnbonding_def Let_def simp del: hasConsPubKey.simps)
  have w1: "storeWf s1 \<and> powerIndexWf s1"
    by (rule beginUnbondingValidator_wf[OF assms(2,3) oa b])
  then have w2: "storeWf (if Tokens validator = 0 then RemoveValidator s1 (OperatorAddr validator)
                      else s1) \<and>
      powerIndexWf (if Tokens validator = 0 then RemoveValidator s1 (OperatorAddr validator)
                      else s1)"
    using RemoveValidator_wf[of s1 "OperatorAddr validator"] by simp
  show ?thesis
    unfolding l1 using w2
    by (simp add: wf_frame[OF validators_prims(9) index_prims(10)])
qed

lemma noLongerBondedLoop_wf:
  assumes "noLongerBondedLoop ops l = Inr l'" "storeWf (store l)" "powerIndexWf (store l)"
  shows "storeWf (store l') \<and> powerIndexWf (store l')"
  using assms
proof (induction ops arbitrary: l)
  case Nil
  then show ?case by simp
next
  case (Cons operator rest)
  from Cons.prems(1) obtain l1 where
    b: "noLongerBondedBody l operator = Inr l1" and r: "noLongerBondedLoop rest l1 = Inr l'"
    by (auto split: sum.splits)
  have w: "storeWf (store l1) \<and> powerIndexWf (store l1)"
    by (rule noLongerBondedBody_wf[OF b Cons.prems(2,3)])
  show ?case using Cons.IH[OF r] w by simp
qed

lemma ApplyAndReturnValidatorSetUpdates_wf:
  assumes "storeWf s" "powerIndexWf s"
    "ApplyAndReturnValidatorSetUpdates s = Inr (r, s')"
  shows "storeWf s' \<and> powerIndexWf s'"
proof -
  from assms(3) obtain l1 l2 where
    c: "candidateLoop (MaxValidators (params s)) (powerIndexIterator s) (initLocals s) = Inr l1"
    and n: "noLongerBondedLoop (sortNoLongerBonded (lastm l1)) l1 = Inr l2"
    and s': "s' = store l2 \<or> s' = SetLastTotalPower (store l2) (totalPower l2)"
    by (auto simp: ApplyAndReturnValidatorSetUpdates_def Let_def split: sum.splits if_splits)
  have i: "storeWf (store (initLocals s))" "powerIndexWf (store (initLocals s))"
    using assms(1,2) by (simp_all add: initLocals_def)
  have w1: "storeWf (store l1) \<and> powerIndexWf (store l1)"
    by (rule candidateLoop_wf[OF c i])
  have w2: "storeWf (store l2) \<and> powerIndexWf (store l2)"
    using noLongerBondedLoop_wf[OF n] w1 by simp
  from s' show ?thesis
    using w2 by (auto simp: wf_frame[OF validators_prims(10) index_prims(11)])
qed

lemma unbondTimeslice_wf:
  assumes "unbondTimeslice valAddrs s = Inr s'" "storeWf s" "powerIndexWf s"
  shows "storeWf s' \<and> powerIndexWf s'"
  using assms
proof (induction valAddrs arbitrary: s)
  case Nil
  then show ?case by simp
next
  case (Cons valAddr rest)
  show ?case
  proof (cases "GetValidator s valAddr")
    case None
    then show ?thesis using Cons by simp
  next
    case (Some val)
    show ?thesis
    proof (cases "IsUnbonding val")
      case False
      then show ?thesis using Cons Some by simp
    next
      case True
      define s1 where "s1 = snd (completeUnbondingValidator s val)"
      define s2 where "s2 = (if DelegatorShares val = 0
                             then RemoveValidator s1 (OperatorAddr val) else s1)"
      have oa: "validators s (OperatorAddr val) = Some val"
        using Some Cons.prems(2) by (simp add: GetValidator_def storeWf_def)
      have r: "unbondTimeslice rest s2 = Inr s'"
        using Cons.prems(1) Some True
        by (auto simp: unbondingToUnbonded_def IsUnbonding_def s1_def s2_def
            split: prod.splits if_splits)
      have w1: "storeWf s1 \<and> powerIndexWf s1"
        unfolding s1_def by (rule completeUnbondingValidator_wf[OF Cons.prems(2,3) oa])
      then have w2: "storeWf s2 \<and> powerIndexWf s2"
        using RemoveValidator_wf[of s1 "OperatorAddr val"] by (simp add: s2_def)
      show ?thesis using Cons.IH[OF r] w2 by simp
    qed
  qed
qed

lemma unbondTimeslices_wf:
  assumes "unbondTimeslices slices s = Inr s'" "storeWf s" "powerIndexWf s"
  shows "storeWf s' \<and> powerIndexWf s'"
  using assms
proof (induction slices arbitrary: s)
  case Nil
  then show ?case by simp
next
  case (Cons slice rest)
  obtain t timeslice where sl: "slice = (t, timeslice)" by (cases slice)
  from Cons.prems(1) sl obtain s1 where
    a: "unbondTimeslice timeslice s = Inr s1"
    and r: "unbondTimeslices rest (s1\<lparr>validatorQueue := AList.delete t (validatorQueue s1)\<rparr>)
            = Inr s'"
    by (auto split: sum.splits)
  have w1: "storeWf s1 \<and> powerIndexWf s1"
    by (rule unbondTimeslice_wf[OF a Cons.prems(2,3)])
  have w2: "storeWf (s1\<lparr>validatorQueue := AList.delete t (validatorQueue s1)\<rparr>) \<and>
            powerIndexWf (s1\<lparr>validatorQueue := AList.delete t (validatorQueue s1)\<rparr>)"
    using w1 by (simp add: storeWf_def powerIndexWf_def)
  show ?case using Cons.IH[OF r] w2 by simp
qed

lemma UnbondAllMatureValidatorQueue_wf:
  assumes "storeWf s" "powerIndexWf s" "UnbondAllMatureValidatorQueue s = Inr s'"
  shows "storeWf s' \<and> powerIndexWf s'"
  using unbondTimeslices_wf[OF assms(3)[unfolded UnbondAllMatureValidatorQueue_def] assms(1,2)] .

lemma new_validator_wf:
  assumes "storeWf s" "powerIndexWf s" "validators s (OperatorAddr v) = None"
  shows "storeWf (SetNewValidatorByPowerIndex (SetValidator s v) v) \<and>
         powerIndexWf (SetNewValidatorByPowerIndex (SetValidator s v) v)"
proof (rule powerIndexWf_step[OF assms(1,2), where r = "Some v" and operator = "OperatorAddr v"])
  let ?s' = "SetNewValidatorByPowerIndex (SetValidator s v) v"
  have ix: "validatorsByPower ?s' =
      AList.update (GetValidatorsByPowerIndexKey v) (OperatorAddr v) (validatorsByPower s)"
    by (simp add: SetNewValidatorByPowerIndex_def index_prims)
  show "validators ?s' = (validators s)(OperatorAddr v := Some v)"
    by (simp add: SetNewValidatorByPowerIndex_def validators_prims)
  show "\<And>w. Some v = Some w \<Longrightarrow> OperatorAddr w = OperatorAddr v" by simp
  show "distinct (map fst (validatorsByPower ?s'))"
    using powerIndexWf_distinct_keys[OF assms(2)] by (simp add: ix distinct_update)
  fix k operator'
  assume m: "map_of (validatorsByPower ?s') k = Some operator'"
  have old: "map_of (validatorsByPower s) k \<noteq> Some (OperatorAddr v)"
    using powerIndexWf_lookup[OF assms(2), of k "OperatorAddr v"] assms(3) by auto
  show "(operator' = OperatorAddr v \<and>
          map_option GetValidatorsByPowerIndexKey (Some v) = Some k) \<or>
        (operator' \<noteq> OperatorAddr v \<and> map_of (validatorsByPower s) k = Some operator')"
    using m old by (auto simp: ix update_conv' split: if_splits)
qed

lemma empty_index_wf: "validatorsByPower s = [] \<Longrightarrow> powerIndexWf s"
  by (simp add: powerIndexWf_def)

section \<open>Running the example store\<close>

lemmas ex_defs = exStore_def exState_def exValidator_def exSide_def exZero_def exLate_def
  exSlashed_def exEmptied_def

lemmas run_defs = ApplyAndReturnValidatorSetUpdates_def initLocals_def getLastValidatorsByAddr_def
  powerIndexIterator_def sortNoLongerBonded_def candidateBody_def noLongerBondedBody_def
  mustGetValidator_def GetValidator_def unbondedToBonded_def unbondingToBonded_def
  bondedToUnbonding_def bondValidator_def beginUnbondingValidator_def UpdateStatus_def
  BondedTokens_val_def ABCIValidatorUpdate_def ABCIValidatorUpdateZero_def callHook_def
  InsertValidatorQueue_def GetValidatorQueueTimeSlice_def SetValidatorQueueTimeSlice_def
  SetLastValidatorPower_def DeleteLastValidatorPower_def SetLastTotalPower_def
  RemoveValidator_def SetValidator_def publish_def SetPool_def GetPool_def
  SetValidatorByPowerIndex_def DeleteValidatorByPowerIndex_def GetValidatorsByPowerIndexKey_def
  AList.delete_eq less_eq_prod_def Let_def

lemma exStore_wf: "storeWf exStore"
  by (simp add: storeWf_def ex_defs)

lemma exStore_index: "powerIndexIterator exStore = [1, 2] @ 3 # [6]"
  by (simp add: powerIndexIterator_def ex_defs GetValidatorsByPowerIndexKey_def
      less_eq_prod_def sort_key_def)

lemma exStore_index_distinct: "distinct (map snd (validatorsByPower exStore))"
  by (simp add: ex_defs)

text \<open>
  The example store is well-formed in the sense of the keeper's discipline, the store with
  the stale entry is not.
\<close>

lemma exStore_powerIndexWf: "powerIndexWf exStore"
  by (simp add: powerIndexWf_def ex_defs GetValidatorsByPowerIndexKey_def)

lemma exStale_not_powerIndexWf: "\<not> powerIndexWf exStale"
  by (simp add: powerIndexWf_def exStale_def exState_def exValidator_def
      GetValidatorsByPowerIndexKey_def)

lemma exStore_candidates_case:
  "(case candidateLoop (MaxValidators (params exStore)) (powerIndexIterator exStore)
           (initLocals exStore) of
      Inl e \<Rightarrow> False
    | Inr l1 \<Rightarrow> sortNoLongerBonded (lastm l1) = [4, 5])"
  by (simp add: ex_defs run_defs)

lemma exStore_candidates:
  "\<exists>l1. candidateLoop (MaxValidators (params exStore)) (powerIndexIterator exStore)
           (initLocals exStore) = Inr l1 \<and> sortNoLongerBonded (lastm l1) = [4, 5]"
  using exStore_candidates_case by (auto split: sum.splits)

lemma exStore_run_case:
  "(case ApplyAndReturnValidatorSetUpdates exStore of
      Inl e \<Rightarrow> False
    | Inr ((vals, ups), s') \<Rightarrow>
        map Operator ups = [1, 4, 5] \<and> map Power ups = [10, 0, 0] \<and>
        GetValidator s' 4 = None \<and>
        map_option Status (GetValidator s' 5) = Some Unbonding \<and>
        map_option Status (GetValidator s' 2) = Some Bonded \<and>
        map_of (lastValidatorPower s') 2 = Some 8)"
  by (simp add: ex_defs run_defs)

lemma exStore_run:
  "\<exists>vals ups s'. ApplyAndReturnValidatorSetUpdates exStore = Inr ((vals, ups), s') \<and>
        map Operator ups = [1, 4, 5] \<and> map Power ups = [10, 0, 0] \<and>
        GetValidator s' 4 = None \<and>
        map_option Status (GetValidator s' 5) = Some Unbonding \<and>
        map_option Status (GetValidator s' 2) = Some Bonded \<and>
        map_of (lastValidatorPower s') 2 = Some 8"
  using exStore_run_case by (auto split: sum.splits prod.splits)

text \<open>
  C5 on the example store: the index is walked in the order 1, 2, 3, 6; validator 3 has no
  tokens, and the loop returns what it returns on the candidates 1 and 2 alone.
\<close>

theorem zero_power_candidate_ends_iteration_witness:
  "storeWf (store (initLocals exStore)) \<and>
   validators (store (initLocals exStore)) 3 = Some exZero \<and>
   \<not> Jailed exZero \<and> Tokens exZero = 0 \<and>
   powerIndexIterator exStore = [1, 2] @ 3 # [6] \<and>
   candidateLoop 5 (powerIndexIterator exStore) (initLocals exStore) =
     candidateLoop 5 [1, 2] (initLocals exStore)"
proof -
  have a: "storeWf (store (initLocals exStore))"
    using exStore_wf by (simp add: initLocals_def)
  have b: "validators (store (initLocals exStore)) 3 = Some exZero"
    by (simp add: initLocals_def ex_defs)
  have c: "\<not> Jailed exZero" "Tokens exZero = 0"
    by (simp_all add: ex_defs)
  show ?thesis
    using a b c exStore_index
      zero_power_candidate_ends_iteration [OF a b c, of 5 "[1, 2]" "[6]"]
    by simp
qed

text \<open>
  C9 on the example store: the side-chain validator 2 goes from unbonded to bonded and
  gets the snapshot entry 8, and no record of the update list is for operator 2.
\<close>

theorem side_chain_validator_never_in_updates_witness:
  "storeWf exStore \<and> GetValidator exStore 2 = Some exSide \<and> \<not> hasConsPubKey exSide \<and>
   (\<exists>vals ups s'. ApplyAndReturnValidatorSetUpdates exStore = Inr ((vals, ups), s') \<and>
      (\<forall>u \<in> set ups. Operator u \<noteq> 2 \<and> (\<exists>pk. PubKey u = ConsPubKey pk)) \<and>
      Status exSide = Unbonded \<and>
      map_option Status (GetValidator s' 2) = Some Bonded \<and>
      map_of (lastValidatorPower exStore) 2 = None \<and>
      map_of (lastValidatorPower s') 2 = Some 8)"
proof -
  have a: "GetValidator exStore 2 = Some exSide" "\<not> hasConsPubKey exSide"
    "Status exSide = Unbonded" "map_of (lastValidatorPower exStore) 2 = None"
    by (simp_all add: GetValidator_def ex_defs)
  obtain vals ups s' where r:
    "ApplyAndReturnValidatorSetUpdates exStore = Inr ((vals, ups), s')"
    "map_option Status (GetValidator s' 2) = Some Bonded"
    "map_of (lastValidatorPower s') 2 = Some 8"
    using exStore_run by auto
  show ?thesis
    using exStore_wf a r
      side_chain_validator_never_in_updates [OF exStore_wf a(1,2) r(1)]
    by auto
qed

text \<open>
  C1 on the example store, with \<open>MaxValidators = 2\<close>: one record of power 10 for
  operator 1 and two records of power zero for operators 4 and 5.
\<close>

theorem updates_distinct_and_bounded_witness:
  "storeWf exStore \<and> distinct (map snd (validatorsByPower exStore)) \<and>
   (\<exists>vals ups s'. ApplyAndReturnValidatorSetUpdates exStore = Inr ((vals, ups), s') \<and>
      map Operator ups = [1, 4, 5] \<and> map Power ups = [10, 0, 0] \<and>
      distinct (map Operator ups) \<and>
      length (filter (\<lambda>u. Power u \<noteq> 0) ups) \<le> MaxValidators (params exStore))"
proof -
  obtain vals ups s' where r:
    "ApplyAndReturnValidatorSetUpdates exStore = Inr ((vals, ups), s')"
    "map Operator ups = [1, 4, 5]" "map Power ups = [10, 0, 0]"
    using exStore_run by auto
  show ?thesis
    using exStore_wf exStore_index_distinct r
      updates_distinct_and_bounded [OF exStore_wf exStore_index_distinct r(1)]
    by auto
qed

text \<open>
  C1 as stated, for every state, fails. In the store whose power index still holds the
  entry of validator 1 under its former key, every record lies under its own operator
  address, and the candidate loop meets operator 1 twice. At the first visit the power 10
  differs from the snapshot's 9: a record is added and the operator is deleted from the
  last-validator map. At the second visit the operator is not found in that map, and a
  second record is added.
\<close>

theorem updates_duplicate_on_stale_index_counterexample:
  "storeWf exStale \<and>
   MaxValidators (params exStale) = 2 \<and>
   powerIndexIterator exStale = [1, 1] \<and>
   \<not> isl (ApplyAndReturnValidatorSetUpdates exStale) \<and>
   map Operator (snd (fst (projr (ApplyAndReturnValidatorSetUpdates exStale)))) = [1, 1] \<and>
   map Power (snd (fst (projr (ApplyAndReturnValidatorSetUpdates exStale)))) = [10, 10] \<and>
   \<not> distinct (map Operator (snd (fst (projr (ApplyAndReturnValidatorSetUpdates exStale)))))"
proof -
  have a: "storeWf exStale"
    by (simp add: storeWf_def exStale_def exState_def exValidator_def)
  have b: "powerIndexIterator exStale = [1, 1]"
    by (simp add: powerIndexIterator_def exStale_def exState_def exValidator_def
        GetValidatorsByPowerIndexKey_def less_eq_prod_def sort_key_def)
  have c: "(case ApplyAndReturnValidatorSetUpdates exStale of
              Inl e \<Rightarrow> False
            | Inr ((vals, ups), s') \<Rightarrow>
                map Operator ups = [1, 1] \<and> map Power ups = [10, 10])"
    by (simp add: exStale_def exState_def exValidator_def run_defs)
  have d: "MaxValidators (params exStale) = 2"
    by (simp add: exStale_def exState_def)
  show ?thesis
    using a b c d by (auto split: sum.splits prod.splits)
qed

text \<open>C2 as amended, on the example store: validator 4 has no tokens and is removed.\<close>

theorem no_longer_bonded_removed_iff_no_tokens_witness:
  "storeWf exStore \<and>
   (\<exists>l1 r s'.
      candidateLoop (MaxValidators (params exStore)) (powerIndexIterator exStore)
        (initLocals exStore) = Inr l1 \<and>
      4 \<in> set (sortNoLongerBonded (lastm l1)) \<and>
      GetValidator exStore 4 = Some exSlashed \<and>
      ApplyAndReturnValidatorSetUpdates exStore = Inr (r, s') \<and>
      (GetValidator s' 4 = None) = (Tokens exSlashed = 0))"
proof -
  obtain l1 where c:
    "candidateLoop (MaxValidators (params exStore)) (powerIndexIterator exStore)
        (initLocals exStore) = Inr l1" "sortNoLongerBonded (lastm l1) = [4, 5]"
    using exStore_candidates by auto
  have m: "4 \<in> set (sortNoLongerBonded (lastm l1))" using c(2) by simp
  have g: "GetValidator exStore 4 = Some exSlashed"
    by (simp add: GetValidator_def ex_defs)
  obtain vals ups s' where r:
    "ApplyAndReturnValidatorSetUpdates exStore = Inr ((vals, ups), s')"
    using exStore_run by auto
  show ?thesis
    using exStore_wf c(1) m g r
      no_longer_bonded_removed_iff_no_tokens [OF exStore_wf c(1) m g r]
    by auto
qed

text \<open>
  C2 as stated fails in both directions. Operators 4 and 5 are left in the no-longer-bonded
  set. Validator 4 has delegator shares 5 and its record is deleted; validator 5 has
  delegator shares 0 and its record stays, now unbonding.
\<close>

theorem no_longer_bonded_removed_with_shares_counterexample:
  "sortNoLongerBonded
     (lastm (projr (candidateLoop (MaxValidators (params exStore)) (powerIndexIterator exStore)
                      (initLocals exStore)))) = [4, 5] \<and>
   \<not> isl (ApplyAndReturnValidatorSetUpdates exStore) \<and>
   GetValidator exStore 4 = Some exSlashed \<and> DelegatorShares exSlashed = 5 \<and>
   GetValidator (snd (projr (ApplyAndReturnValidatorSetUpdates exStore))) 4 = None \<and>
   GetValidator exStore 5 = Some exEmptied \<and> DelegatorShares exEmptied = 0 \<and>
   map_option Status (GetValidator (snd (projr (ApplyAndReturnValidatorSetUpdates exStore))) 5)
     = Some Unbonding"
proof -
  obtain l1 where c:
    "candidateLoop (MaxValidators (params exStore)) (powerIndexIterator exStore)
        (initLocals exStore) = Inr l1" "sortNoLongerBonded (lastm l1) = [4, 5]"
    using exStore_candidates by auto
  obtain vals ups s' where r:
    "ApplyAndReturnValidatorSetUpdates exStore = Inr ((vals, ups), s')"
    "GetValidator s' 4 = None"
    "map_option Status (GetValidator s' 5) = Some Unbonding"
    using exStore_run by auto
  have g: "GetValidator exStore 4 = Some exSlashed" "DelegatorShares exSlashed = 5"
    "GetValidator exStore 5 = Some exEmptied" "DelegatorShares exEmptied = 0"
    by (simp_all add: GetValidator_def ex_defs)
  show ?thesis
    by (simp add: c r g)
qed

end
